theory Spec2Isabelle
  imports Complex_Main
begin

section \<open>Data model\<close>

text \<open>
  The curve core of \<^verbatim>\<open>main.cpp\<close> works on \<^verbatim>\<open>float\<close> values, on
  \<^verbatim>\<open>std::vector\<close>s indexed by \<^verbatim>\<open>int\<close>, and on \<^verbatim>\<open>glm::vec3\<close> points.
  A \<^verbatim>\<open>float\<close> value is represented by the real number it denotes. The knot construction
  rounds as binary32 does: its division and each of its additions go through \<open>fl32\<close>
  below. The arithmetic of the evaluator (the weights, the blends of points, the increment
  of the parameter) and of the coordinate conversion is exact. Infinities and NaN are not
  represented: where the program would leave the real numbers (a division by zero) or the
  defined behaviour of C++ (an index outside a vector), the embedding returns an error value
  instead, so every such event is a branch that theorems can talk about.
  The \<^verbatim>\<open>int\<close> variables are unbounded integers; the program keeps them far below
  \<open>2\<^sup>2\<^sup>4\<close> (the degree slider stops at 10, the point count is the number of mouse clicks),
  where \<^verbatim>\<open>int\<close> does not wrap and binary32 holds every integer and sum of integers
  exactly.
\<close>

datatype error = OutOfBounds | ZeroDenominator

text \<open>\<^verbatim>\<open>v[i]\<close> on a \<^verbatim>\<open>std::vector\<close>, with the index an \<^verbatim>\<open>int\<close> expression.\<close>

definition vec_at :: "'a list \<Rightarrow> int \<Rightarrow> error + 'a" where
  "vec_at xs i = (if 0 \<le> i \<and> i < int (length xs) then Inr (xs ! nat i) else Inl OutOfBounds)"

text \<open>\<^verbatim>\<open>v[i] = x\<close> on a \<^verbatim>\<open>std::vector\<close>.\<close>

definition vec_set :: "'a list \<Rightarrow> int \<Rightarrow> 'a \<Rightarrow> error + 'a list" where
  "vec_set xs i x = (if 0 \<le> i \<and> i < int (length xs) then Inr (xs[nat i := x]) else Inl OutOfBounds)"

text \<open>\<^verbatim>\<open>glm::vec3\<close> with the two operations the evaluator uses.\<close>

datatype vec3 = Vec3 real real real

fun vadd :: "vec3 \<Rightarrow> vec3 \<Rightarrow> vec3" where
  "vadd (Vec3 a b c) (Vec3 a' b' c') = Vec3 (a + a') (b + b') (c + c')"

fun smul :: "real \<Rightarrow> vec3 \<Rightarrow> vec3" where
  "smul w (Vec3 a b c) = Vec3 (w * a) (w * b) (w * c)"

text \<open>\<^verbatim>\<open>CPU_Geometry\<close> (declared in \<^verbatim>\<open>Geometry.h\<close>): two parallel vectors.\<close>

record CPU_Geometry =
  verts :: "vec3 list"
  cols :: "vec3 list"

definition emptyGeom :: CPU_Geometry where
  "emptyGeom = \<lparr>verts = [], cols = []\<rparr>"

section \<open>Binary32 rounding\<close>

text \<open>The exponent \<open>e\<close> with \<open>2\<^sup>e \<le> x < 2\<^sup>e\<^sup>+\<^sup>1\<close> of a positive real.\<close>

definition binade :: "real \<Rightarrow> int" where
  "binade x = (if x \<le> 0 then 0 else \<lfloor>log 2 x\<rfloor>)"

text \<open>Rounding to the nearest integer, a tie to the even one.\<close>

definition rne :: "real \<Rightarrow> int" where
  "rne y =
     (if y - of_int \<lfloor>y\<rfloor> < 1 / 2 then \<lfloor>y\<rfloor>
      else if 1 / 2 < y - of_int \<lfloor>y\<rfloor> then \<lfloor>y\<rfloor> + 1
      else if even \<lfloor>y\<rfloor> then \<lfloor>y\<rfloor> else \<lfloor>y\<rfloor> + 1)"

text \<open>
  Rounding to the nearest binary32 value, ties to even: the real is scaled by the unit in the
  last place of its binade so that the 24-bit significand is an integer, and that integer is
  rounded. The exponent range of binary32 is not represented; the values rounded in this
  program lie between \<open>2\<^sup>-\<^sup>2\<^sup>4\<close> and \<open>2\<close>.
\<close>

definition fl32 :: "real \<Rightarrow> real" where
  "fl32 x =
     (if x = 0 then 0
      else 2 powi (binade \<bar>x\<bar> - 23) * of_int (rne (x / 2 powi (binade \<bar>x\<bar> - 23))))"

section \<open>Span location: \<^verbatim>\<open>delta\<close>\<close>

text \<open>
  \<^verbatim>\<open>for (int i = 0; i < m + k - 1; i++) if ((u >= U[i]) && (u < U[i + 1])) return i;\<close>
  \<^verbatim>\<open>return -1;\<close>
  The second comparison is only evaluated when the first holds.
\<close>

function delta_loop :: "real list \<Rightarrow> real \<Rightarrow> int \<Rightarrow> int \<Rightarrow> int \<Rightarrow> error + int" where
  "delta_loop U u k m i =
     (if i < m + k - 1 then
        (case vec_at U i of
           Inl e \<Rightarrow> Inl e
         | Inr a \<Rightarrow>
             if u \<ge> a then
               (case vec_at U (i + 1) of
                  Inl e \<Rightarrow> Inl e
                | Inr b \<Rightarrow> if u < b then Inr i else delta_loop U u k m (i + 1))
             else delta_loop U u k m (i + 1))
      else Inr (- 1))"
  by pat_completeness auto
termination
  by (relation "measure (\<lambda>(U, u, k, m, i). nat (m + k - 1 - i))") auto

definition delta :: "real list \<Rightarrow> real \<Rightarrow> int \<Rightarrow> int \<Rightarrow> error + int" where
  "delta U u k m = delta_loop U u k m 0"

section \<open>Knot vector: \<^verbatim>\<open>standardKnot\<close>\<close>

text \<open>
  The parameters are \<^verbatim>\<open>float\<close>s, the counter is an \<^verbatim>\<open>int\<close> compared with them;
  \<^verbatim>\<open>main\<close> passes the degree and the point count minus one, which convert exactly, and
  the integer-valued expressions \<^verbatim>\<open>m - k + 2\<close>, \<^verbatim>\<open>m + k + 1\<close> and \<^verbatim>\<open>m + 1\<close> are
  exact with them. \<^verbatim>\<open>spacing = 1 / (m - k + 2)\<close> is one binary32 division, computed once
  before the loop; when \<open>m - k + 2 = 0\<close> the program gets an infinity there, which the
  embedding reports at the place that would add it to a knot. \<^verbatim>\<open>U[i-1] + spacing\<close> is one
  binary32 addition per interior knot.
\<close>

function standardKnot_loop ::
  "real \<Rightarrow> real \<Rightarrow> error + real \<Rightarrow> int \<Rightarrow> real list \<Rightarrow> error + real list" where
  "standardKnot_loop k m spacing i U =
     (if of_int i < m + k + 1 then
        (if of_int i < k then standardKnot_loop k m spacing (i + 1) (U @ [0])
         else if of_int i \<ge> k \<and> of_int i < m + 1 then
           (case vec_at U (i - 1) of
              Inl e \<Rightarrow> Inl e
            | Inr p \<Rightarrow>
                (case spacing of
                   Inl e \<Rightarrow> Inl e
                 | Inr sp \<Rightarrow> standardKnot_loop k m spacing (i + 1) (U @ [fl32 (p + sp)])))
         else standardKnot_loop k m spacing (i + 1) (U @ [1]))
      else Inr U)"
  by pat_completeness auto
termination
  by (relation "measure (\<lambda>(k, m, spacing, i, U). nat \<lceil>m + k + 1 - of_int i\<rceil>)")
     (auto simp: le_ceiling_iff)

definition standardKnot :: "real \<Rightarrow> real \<Rightarrow> error + real list" where
  "standardKnot k m =
     standardKnot_loop k m
       (if m - k + 2 = 0 then Inl ZeroDenominator else Inr (fl32 (1 / (m - k + 2)))) 0 []"


section \<open>Curve evaluation and sampling: \<^verbatim>\<open>efficientBSpline\<close>\<close>

text \<open>\<^verbatim>\<open>for (i = 0; i < (k - 1); i++) C.push_back(E[d - i]);\<close>\<close>

function seed_loop :: "vec3 list \<Rightarrow> int \<Rightarrow> int \<Rightarrow> int \<Rightarrow> vec3 list \<Rightarrow> error + vec3 list" where
  "seed_loop E d k i C =
     (if i < k - 1 then
        (case vec_at E (d - i) of
           Inl e \<Rightarrow> Inl e
         | Inr p \<Rightarrow> seed_loop E d k (i + 1) (C @ [p]))
      else Inr C)"
  by pat_completeness auto
termination
  by (relation "measure (\<lambda>(E, d, k, i, C). nat (k - 1 - i))") auto

text \<open>The right-hand side \<^verbatim>\<open>omega * C[s] + (1 - omega) * C[s + 1]\<close>.\<close>

definition blend :: "real \<Rightarrow> vec3 \<Rightarrow> vec3 \<Rightarrow> vec3" where
  "blend omega a b = vadd (smul omega a) (smul (1 - omega) b)"

text \<open>
  The inner loop
  \<^verbatim>\<open>for (int s = 0; s < (r - 2); s++) { float omega = (u - U[i]) / (U[i + r - 1] - U[i]);\<close>
  \<^verbatim>\<open>C[s] = (omega * C[s] + (1 - omega) * C[s + 1]); i -= 1; }\<close>
  with its state \<open>s\<close>, \<open>i\<close>, \<open>C\<close>.
\<close>

function blend_inner ::
  "real list \<Rightarrow> real \<Rightarrow> int \<Rightarrow> int \<Rightarrow> int \<Rightarrow> vec3 list \<Rightarrow> error + vec3 list" where
  "blend_inner U u r s i C =
     (if s < r - 2 then
        (case vec_at U i of
           Inl e \<Rightarrow> Inl e
         | Inr ui \<Rightarrow>
        (case vec_at U (i + r - 1) of
           Inl e \<Rightarrow> Inl e
         | Inr uj \<Rightarrow>
        if uj - ui = 0 then Inl ZeroDenominator
        else
        (case vec_at C s of
           Inl e \<Rightarrow> Inl e
         | Inr a \<Rightarrow>
        (case vec_at C (s + 1) of
           Inl e \<Rightarrow> Inl e
         | Inr b \<Rightarrow>
        (case vec_set C s (blend ((u - ui) / (uj - ui)) a b) of
           Inl e \<Rightarrow> Inl e
         | Inr C' \<Rightarrow> blend_inner U u r (s + 1) (i - 1) C')))))
      else Inr C)"
  by pat_completeness auto
termination
  by (relation "measure (\<lambda>(U, u, r, s, i, C). nat (r - 2 - s))") auto

text \<open>The outer loop \<^verbatim>\<open>for (int r = k; r > 2; r--) { i = d; ... }\<close>.\<close>

function blend_outer :: "real list \<Rightarrow> real \<Rightarrow> int \<Rightarrow> int \<Rightarrow> vec3 list \<Rightarrow> error + vec3 list" where
  "blend_outer U u d r C =
     (if r > 2 then
        (case blend_inner U u r 0 d C of
           Inl e \<Rightarrow> Inl e
         | Inr C' \<Rightarrow> blend_outer U u d (r - 1) C')
      else Inr C)"
  by pat_completeness auto
termination
  by (relation "measure (\<lambda>(U, u, d, r, C). nat (r - 2))") auto

text \<open>
  The body of the sampling loop up to the point it pushes: span lookup, seeding, blending,
  and the read of \<^verbatim>\<open>C[0]\<close>.
\<close>

definition curvePoint :: "vec3 list \<Rightarrow> real list \<Rightarrow> int \<Rightarrow> int \<Rightarrow> real \<Rightarrow> error + vec3" where
  "curvePoint E U k m u =
     (case delta U u k m of
        Inl e \<Rightarrow> Inl e
      | Inr d \<Rightarrow>
     (case seed_loop E d k 0 [] of
        Inl e \<Rightarrow> Inl e
      | Inr C \<Rightarrow>
     (case blend_outer U u d k C of
        Inl e \<Rightarrow> Inl e
      | Inr C' \<Rightarrow> vec_at C' 0)))"

text \<open>The colour pushed with every vertex, \<^verbatim>\<open>glm::vec3{ 1.f, 0.75f, 0.2f }\<close>.\<close>

definition curveColour :: vec3 where
  "curveColour = Vec3 1 (3 / 4) (1 / 5)"

text \<open>
  The sampling loop \<^verbatim>\<open>for (float u = U[k - 1]; u < U[m + 1]; u += u_inc)\<close>. Nothing bounds
  the number of iterations when \<open>u_inc \<le> 0\<close>, so the loop is a partial function:
  \<open>None\<close> means that it does not return.
\<close>

partial_function (option) sample_loop ::
  "vec3 list \<Rightarrow> real list \<Rightarrow> int \<Rightarrow> int \<Rightarrow> real \<Rightarrow> real \<Rightarrow> CPU_Geometry \<Rightarrow> (error + CPU_Geometry) option"
  where
  "sample_loop E U k m u_inc u cpuGeom =
     (case vec_at U (m + 1) of
        Inl e \<Rightarrow> Some (Inl e)
      | Inr hi \<Rightarrow>
          if u < hi then
            (case curvePoint E U k m u of
               Inl e \<Rightarrow> Some (Inl e)
             | Inr p \<Rightarrow>
                 sample_loop E U k m u_inc (u + u_inc)
                   (cpuGeom\<lparr>verts := verts cpuGeom @ [p], cols := cols cpuGeom @ [curveColour]\<rparr>))
          else Some (Inr cpuGeom))"

declare sample_loop.simps [code]

text \<open>
  \<^verbatim>\<open>efficientBSpline(E, U, M, k, m, u_inc)\<close>. The weight vector \<open>M\<close> is a parameter
  that the body never reads.
\<close>

definition efficientBSpline ::
  "vec3 list \<Rightarrow> real list \<Rightarrow> int list \<Rightarrow> int \<Rightarrow> int \<Rightarrow> real \<Rightarrow> (error + CPU_Geometry) option" where
  "efficientBSpline E U M k m u_inc =
     (case vec_at U (k - 1) of
        Inl e \<Rightarrow> Some (Inl e)
      | Inr lo \<Rightarrow> sample_loop E U k m u_inc lo emptyGeom)"



section \<open>Coordinate conversion in \<^verbatim>\<open>MyCallbacks\<close>\<close>

text \<open>
  The callback object without its shader reference. A \<^verbatim>\<open>glm::vec2\<close> is a pair of reals.
\<close>

record MyCallbacks =
  screenWidth :: int
  screenHeight :: int
  screenMouseX :: real
  screenMouseY :: real
  currentFrame :: int
  leftMouseActiveVal :: bool
  lastLeftPressedFrame :: int
  lastRightPressedFrame :: int

text \<open>The constructor \<^verbatim>\<open>MyCallbacks(shader, screenWidth, screenHeight)\<close>.\<close>

definition newCallbacks :: "int \<Rightarrow> int \<Rightarrow> MyCallbacks" where
  "newCallbacks w h =
     \<lparr>screenWidth = w, screenHeight = h, screenMouseX = - 1, screenMouseY = - 1,
      currentFrame = 0, leftMouseActiveVal = False,
      lastLeftPressedFrame = - 1, lastRightPressedFrame = - 1\<rparr>"

definition cursorPosCallback :: "MyCallbacks \<Rightarrow> real \<Rightarrow> real \<Rightarrow> MyCallbacks" where
  "cursorPosCallback cb xpos ypos = cb\<lparr>screenMouseX := xpos, screenMouseY := ypos\<rparr>"

text \<open>
  \<^verbatim>\<open>getCursorPosGL\<close>: centre of the pixel, scale to \<open>[0, 1]\<close>, flip the vertical axis, map to
  \<open>[-1, 1]\<close>. The scaling divides by the window size.
\<close>

definition getCursorPosGL :: "MyCallbacks \<Rightarrow> error + real \<times> real" where
  "getCursorPosGL cb =
     (let screenPos = (screenMouseX cb, screenMouseY cb);
          centredPos = (fst screenPos + 1 / 2, snd screenPos + 1 / 2)
      in if screenWidth cb = 0 \<or> screenHeight cb = 0 then Inl ZeroDenominator
         else
           (let scaledToZeroOne =
                  (fst centredPos / of_int (screenWidth cb), snd centredPos / of_int (screenHeight cb));
                flippedY = (fst scaledToZeroOne, 1 - snd scaledToZeroOne)
            in Inr (2 * fst flippedY - 1, 2 * snd flippedY - 1)))"

text \<open>\<^verbatim>\<open>glPosToScreenCoords\<close>: map \<open>[-1, 1]\<close> to \<open>[0, 1]\<close>, flip, scale by the window size.\<close>

definition glPosToScreenCoords :: "MyCallbacks \<Rightarrow> real \<times> real \<Rightarrow> real \<times> real" where
  "glPosToScreenCoords cb glPos =
     (let scaledZeroOne = (1 / 2 * (fst glPos + 1), 1 / 2 * (snd glPos + 1));
          flippedY = (fst scaledZeroOne, 1 - snd scaledZeroOne)
      in (fst flippedY * of_int (screenWidth cb), snd flippedY * of_int (screenHeight cb)))"

section \<open>Specification-side definitions\<close>

text \<open>The half-open knot span \<open>[U[i], U[i+1])\<close> contains \<open>u\<close>.\<close>

definition in_span :: "real list \<Rightarrow> real \<Rightarrow> int \<Rightarrow> bool" where
  "in_span U u i = (U ! nat i \<le> u \<and> u < U ! nat (i + 1))"

text \<open>
  The knot vector as a recurrence on its index: \<open>k\<close> zeros, then each entry the rounded sum
  of the previous entry and the rounded spacing, then ones.
\<close>

fun fknot_value :: "int \<Rightarrow> int \<Rightarrow> nat \<Rightarrow> real" where
  "fknot_value k m 0 = (if 0 < k then 0 else 1)"
| "fknot_value k m (Suc j) =
     (if int (Suc j) < k then 0
      else if int (Suc j) < m + 1 then
        fl32 (fknot_value k m j + fl32 (1 / (real_of_int m - real_of_int k + 2)))
      else 1)"

definition fknots :: "int \<Rightarrow> int \<Rightarrow> real list" where
  "fknots k m = map (fknot_value k m) [0..<nat (m + k + 1)]"

text \<open>The value \<^verbatim>\<open>standardKnot\<close> computes for \<^verbatim>\<open>spacing\<close> from integer arguments.\<close>

definition spacing_of :: "int \<Rightarrow> int \<Rightarrow> error + real" where
  "spacing_of k m =
     (if real_of_int m - real_of_int k + 2 = 0 then Inl ZeroDenominator
      else Inr (fl32 (1 / (real_of_int m - real_of_int k + 2))))"

text \<open>
  What the evaluator needs of a knot vector: \<open>m + k + 1\<close> entries, zeros below index \<open>k\<close>,
  ones from index \<open>m + 1\<close> on, and no descent up to index \<open>m\<close>.
\<close>

definition clamped :: "real list \<Rightarrow> int \<Rightarrow> int \<Rightarrow> bool" where
  "clamped U k m =
     (int (length U) = m + k + 1 \<and>
      (\<forall>j. 0 \<le> j \<and> j < k \<longrightarrow> U ! nat j = 0) \<and>
      (\<forall>j. k \<le> j \<and> m + 1 \<le> j \<and> j < m + k + 1 \<longrightarrow> U ! nat j = 1) \<and>
      (\<forall>i j. 0 \<le> i \<and> i \<le> j \<and> j \<le> m \<longrightarrow> U ! nat i \<le> U ! nat j))"

text \<open>
  The de Boor recurrence for a B-spline of order \<open>k\<close> (polynomial degree \<open>k - 1\<close>) on the
  knots \<open>U\<close> and control points \<open>E\<close>, as in the textbooks:
  \<open>P\<^sub>i\<^sup>0 = E\<^sub>i\<close> and \<open>P\<^sub>i\<^sup>j = (1 - a) P\<^sub>i\<^sub>-\<^sub>1\<^sup>j\<^sup>-\<^sup>1 + a P\<^sub>i\<^sup>j\<^sup>-\<^sup>1\<close> with
  \<open>a = (u - U\<^sub>i) / (U\<^sub>i\<^sub>+\<^sub>k\<^sub>-\<^sub>j - U\<^sub>i)\<close>; the curve point for \<open>u\<close> in the span \<open>d\<close> is
  \<open>P\<^sub>d\<^sup>k\<^sup>-\<^sup>1\<close>. This is the reference that the working-buffer evaluation is compared with;
  \<open>m + k + 1\<close> knots for \<open>m + 1\<close> control points is the knot count of order \<open>k\<close>.
\<close>

fun deBoor_reference :: "vec3 list \<Rightarrow> real list \<Rightarrow> int \<Rightarrow> real \<Rightarrow> nat \<Rightarrow> int \<Rightarrow> vec3" where
  "deBoor_reference E U k u 0 i = E ! nat i"
| "deBoor_reference E U k u (Suc j) i =
     blend ((u - U ! nat i) / (U ! nat (i + k - 1 - int j) - U ! nat i))
       (deBoor_reference E U k u j i) (deBoor_reference E U k u j (i - 1))"

definition deBoor_point :: "vec3 list \<Rightarrow> real list \<Rightarrow> int \<Rightarrow> int \<Rightarrow> real \<Rightarrow> vec3" where
  "deBoor_point E U k d u = deBoor_reference E U k u (nat (k - 1)) d"

text \<open>
  The evaluation step the way the specification words it: the seed
  \<open>E[d], E[d-1], \<dots>, E[d-(k-2)]\<close>; for \<open>r\<close> from \<open>k\<close> down to \<open>3\<close> and \<open>s\<close> from \<open>0\<close> to
  \<open>r - 3\<close>, with \<open>i = d - s\<close>, the update of \<open>C[s]\<close> by
  \<open>omega * C[s] + (1 - omega) * C[s+1]\<close>, \<open>omega = (u - U[i]) / (U[i+r-1] - U[i])\<close>; and the
  result \<open>C[0]\<close>.
\<close>

definition seed_spec :: "vec3 list \<Rightarrow> int \<Rightarrow> int \<Rightarrow> vec3 list" where
  "seed_spec E d k = map (\<lambda>j. E ! nat (d - int j)) [0..<nat (k - 1)]"

definition omega_spec :: "real list \<Rightarrow> real \<Rightarrow> int \<Rightarrow> int \<Rightarrow> real" where
  "omega_spec U u i r = (u - U ! nat i) / (U ! nat (i + r - 1) - U ! nat i)"

text \<open>The combination \<open>w * P + (1 - w) * Q\<close> of two points, coordinate by coordinate.\<close>

definition combine_spec :: "real \<Rightarrow> vec3 \<Rightarrow> vec3 \<Rightarrow> vec3" where
  "combine_spec w P Q =
     (case P of Vec3 x y z \<Rightarrow>
        (case Q of Vec3 x' y' z' \<Rightarrow>
           Vec3 (w * x + (1 - w) * x') (w * y + (1 - w) * y') (w * z + (1 - w) * z')))"

definition blend_step_spec :: "real list \<Rightarrow> real \<Rightarrow> int \<Rightarrow> int \<Rightarrow> vec3 list \<Rightarrow> nat \<Rightarrow> vec3 list" where
  "blend_step_spec U u d r C s =
     C[s := combine_spec (omega_spec U u (d - int s) r) (C ! s) (C ! (s + 1))]"

definition blend_row_spec :: "real list \<Rightarrow> real \<Rightarrow> int \<Rightarrow> vec3 list \<Rightarrow> int \<Rightarrow> vec3 list" where
  "blend_row_spec U u d C r = foldl (blend_step_spec U u d r) C [0..<nat (r - 2)]"

definition blend_spec :: "real list \<Rightarrow> real \<Rightarrow> int \<Rightarrow> int \<Rightarrow> vec3 list \<Rightarrow> vec3 list" where
  "blend_spec U u d k C = foldl (blend_row_spec U u d) C (rev [3..k])"

definition point_spec :: "vec3 list \<Rightarrow> real list \<Rightarrow> int \<Rightarrow> int \<Rightarrow> real \<Rightarrow> vec3" where
  "point_spec E U k d u = blend_spec U u d k (seed_spec E d k) ! 0"

text \<open>
  The accesses and the denominators of one pass of the inner loop at span \<open>d\<close> and level
  \<open>r\<close> are in range and positive.
\<close>

definition blend_ok :: "real list \<Rightarrow> int \<Rightarrow> int \<Rightarrow> bool" where
  "blend_ok U d r =
     (\<forall>j. 0 \<le> j \<and> j < r - 2 \<longrightarrow>
        0 \<le> d - j \<and> d - j + r - 1 < int (length U) \<and> U ! nat (d - j) < U ! nat (d - j + r - 1))"

text \<open>The point of a successful evaluation.\<close>

definition point_of :: "error + vec3 \<Rightarrow> vec3" where
  "point_of r = (case r of Inr p \<Rightarrow> p | Inl e \<Rightarrow> Vec3 0 0 0)"

section \<open>Facts about the rounding\<close>

lemma binade_iff:
  assumes "0 < x"
  shows "binade x = e \<longleftrightarrow> 2 powi e \<le> x \<and> x < 2 powi (e + 1)"
proof -
  have p1: "2 powr (real_of_int e) = 2 powi e"
    by (rule powr_real_of_int') simp_all
  have p2: "2 powr (real_of_int (e + 1)) = 2 powi (e + 1)"
    by (rule powr_real_of_int') simp_all
  have "\<lfloor>log 2 x\<rfloor> = e \<longleftrightarrow> 2 powr (real_of_int e) \<le> x \<and> x < 2 powr (real_of_int e + 1)"
    using floor_log_eq_powr_iff[of x 2 e] assms by simp
  also have "real_of_int e + 1 = real_of_int (e + 1)" by simp
  finally show ?thesis using assms unfolding p1 p2 by (simp add: binade_def)
qed

lemma binade_bounds:
  assumes "0 < x"
  shows "2 powi (binade x) \<le> x" "x < 2 powi (binade x + 1)"
  using binade_iff[OF assms, of "binade x"] by simp_all

lemma binade_code [code]:
  "binade x =
     (if x \<le> 0 then 0
      else if 2 \<le> x then binade (x / 2) + 1
      else if x < 1 then binade (2 * x) - 1
      else 0)"
proof (cases "x \<le> 0")
  case True
  then show ?thesis by (simp add: binade_def)
next
  case False
  then have x: "0 < x" by simp
  show ?thesis
  proof (cases "2 \<le> x")
    case True
    have h: "0 < x / 2" using x by simp
    have "2 powi (binade (x / 2) + 1) \<le> x \<and> x < 2 powi (binade (x / 2) + 1 + 1)"
      using binade_bounds[OF h] by (simp add: power_int_add field_simps)
    then have "binade x = binade (x / 2) + 1" using binade_iff[OF x] by blast
    then show ?thesis using True x by simp
  next
    case nt: False
    show ?thesis
    proof (cases "x < 1")
      case True
      have h: "0 < 2 * x" using x by simp
      have "2 powi (binade (2 * x) - 1) \<le> x \<and> x < 2 powi (binade (2 * x) - 1 + 1)"
        using binade_bounds[OF h] by (simp add: power_int_diff power_int_add field_simps)
      then have "binade x = binade (2 * x) - 1" using binade_iff[OF x] by blast
      then show ?thesis using True nt x by simp
    next
      case False
      then have "binade x = 0" using nt x binade_iff[OF x, of 0] by simp
      then show ?thesis using False nt x by simp
    qed
  qed
qed


lemma rne_of_int [simp]: "rne (of_int n) = n"
  by (simp add: rne_def)

lemma rne_bounds: "\<lfloor>y\<rfloor> \<le> rne y" "rne y \<le> \<lfloor>y\<rfloor> + 1"
  by (simp_all add: rne_def)

lemma rne_mono:
  assumes "x \<le> y"
  shows "rne x \<le> rne y"
proof (cases "\<lfloor>x\<rfloor> = \<lfloor>y\<rfloor>")
  case True
  then show ?thesis using assms by (auto simp: rne_def)
next
  case False
  then have "\<lfloor>x\<rfloor> < \<lfloor>y\<rfloor>" using floor_mono[OF assms] by simp
  then have "rne x \<le> \<lfloor>y\<rfloor>" using rne_bounds(2)[of x] by simp
  then show ?thesis using rne_bounds(1)[of y] by simp
qed

lemma binade_mono:
  assumes "0 < x" "x \<le> y"
  shows "binade x \<le> binade y"
proof (rule ccontr)
  assume "\<not> binade x \<le> binade y"
  then have "binade y + 1 \<le> binade x" by simp
  then have "(2::real) powi (binade y + 1) \<le> 2 powi (binade x)"
    by (intro power_int_increasing) simp_all
  moreover have "y < 2 powi (binade y + 1)" using binade_bounds(2)[of y] assms by simp
  moreover have "2 powi (binade x) \<le> x" using binade_bounds(1)[OF assms(1)] .
  ultimately show False using assms(2) by linarith
qed

lemma fl32_pos_eq:
  assumes "0 < x"
  shows "fl32 x = 2 powi (binade x - 23) * of_int (rne (x / 2 powi (binade x - 23)))"
  using assms by (simp add: fl32_def)

lemma scaled_bounds:
  assumes "0 < x"
  shows "8388608 \<le> x / 2 powi (binade x - 23)" "x / 2 powi (binade x - 23) \<le> 16777216"
proof -
  define t where "t = x / 2 powi (binade x)"
  have p: "(0::real) < 2 powi (binade x)" by simp
  have e: "x / 2 powi (binade x - 23) = t * 8388608"
    by (simp add: t_def power_int_diff)
  have "1 \<le> t"
    unfolding t_def using binade_bounds(1)[OF assms] p by (simp add: le_divide_eq)
  moreover have "t \<le> 2"
    unfolding t_def using binade_bounds(2)[OF assms] p by (simp add: divide_le_eq power_int_add)
  ultimately show "8388608 \<le> x / 2 powi (binade x - 23)" "x / 2 powi (binade x - 23) \<le> 16777216"
    unfolding e by simp_all
qed

lemma rne_scaled_bounds:
  assumes "0 < x"
  shows "8388608 \<le> rne (x / 2 powi (binade x - 23))" "rne (x / 2 powi (binade x - 23)) \<le> 16777216"
proof -
  have "rne (of_int 8388608) \<le> rne (x / 2 powi (binade x - 23))"
    using scaled_bounds(1)[OF assms] by (intro rne_mono) simp
  then show "8388608 \<le> rne (x / 2 powi (binade x - 23))" by (simp only: rne_of_int)
  have "rne (x / 2 powi (binade x - 23)) \<le> rne (of_int 16777216)"
    using scaled_bounds(2)[OF assms] by (intro rne_mono) simp
  then show "rne (x / 2 powi (binade x - 23)) \<le> 16777216" by (simp only: rne_of_int)
qed

lemma fl32_binade_bounds:
  assumes "0 < x"
  shows "2 powi (binade x) \<le> fl32 x" "fl32 x \<le> 2 powi (binade x + 1)"
proof -
  define q :: real where "q = 2 powi (binade x - 23)"
  define n where "n = rne (x / q)"
  have qpos: "0 < q" by (simp add: q_def)
  have q: "q * 8388608 = 2 powi (binade x)" "q * 16777216 = 2 powi (binade x + 1)"
    by (simp_all add: q_def power_int_diff power_int_add)
  have f: "fl32 x = q * of_int n" using assms by (simp add: fl32_pos_eq q_def n_def)
  have "real_of_int 8388608 \<le> of_int n"
    using rne_scaled_bounds(1)[OF assms] unfolding n_def q_def by (simp only: of_int_le_iff)
  then have "q * 8388608 \<le> q * of_int n" using qpos by simp
  then show "2 powi (binade x) \<le> fl32 x" unfolding f q[symmetric] .
  have "of_int n \<le> real_of_int 16777216"
    using rne_scaled_bounds(2)[OF assms] unfolding n_def q_def by (simp only: of_int_le_iff)
  then have "q * of_int n \<le> q * 16777216" using qpos by simp
  then show "fl32 x \<le> 2 powi (binade x + 1)" unfolding f q[symmetric] .
qed

lemma fl32_pos: "0 < x \<Longrightarrow> 0 < fl32 x"
  using fl32_binade_bounds(1)[of x] zero_less_power_int[of "2::real" "binade x"] by linarith

lemma fl32_zero [simp]: "fl32 0 = 0"
  by (simp add: fl32_def)

lemma fl32_nonneg: "0 \<le> x \<Longrightarrow> 0 \<le> fl32 x"
  using fl32_pos[of x] by (cases "x = 0") auto

lemma fl32_mono:
  assumes "0 \<le> x" "x \<le> y"
  shows "fl32 x \<le> fl32 y"
proof (cases "x = 0")
  case True
  then show ?thesis using fl32_nonneg[of y] assms by simp
next
  case False
  then have x: "0 < x" and y: "0 < y" using assms by simp_all
  show ?thesis
  proof (cases "binade x = binade y")
    case True
    have "rne (x / 2 powi (binade y - 23)) \<le> rne (y / 2 powi (binade y - 23))"
      using assms(2) by (intro rne_mono divide_right_mono) simp_all
    then have "2 powi (binade y - 23) * real_of_int (rne (x / 2 powi (binade y - 23)))
        \<le> 2 powi (binade y - 23) * real_of_int (rne (y / 2 powi (binade y - 23)))"
      by (intro mult_left_mono) simp_all
    then show ?thesis using x y True by (simp add: fl32_pos_eq)
  next
    case False
    then have "binade x + 1 \<le> binade y" using binade_mono[OF x assms(2)] by simp
    then have "(2::real) powi (binade x + 1) \<le> 2 powi (binade y)"
      by (intro power_int_increasing) simp_all
    then show ?thesis
      using fl32_binade_bounds(2)[OF x] fl32_binade_bounds(1)[OF y] by linarith
  qed
qed

lemma fl32_representable:
  assumes "8388608 \<le> n" "n \<le> 16777216"
  shows "fl32 (2 powi c * of_int n) = 2 powi c * of_int n"
proof -
  define x :: real where "x = 2 powi c * of_int n"
  have npos: "0 < n" using assms(1) by simp
  have "real_of_int 8388608 \<le> of_int n" using assms(1) by (simp only: of_int_le_iff)
  then have n1: "8388608 \<le> real_of_int n" by simp
  have x: "0 < x" using npos by (simp add: x_def)
  have p: "(0::real) < 2 powi c" by simp
  show ?thesis
  proof (cases "n = 16777216")
    case True
    then have xe: "x = 2 powi (c + 24)" by (simp add: x_def power_int_add)
    have "2 powi (c + 24) \<le> x \<and> x < 2 powi (c + 24 + 1)"
      unfolding xe by (simp add: power_int_add)
    then have b: "binade x = c + 24" using binade_iff[OF x, of "c + 24"] by simp
    have "x / 2 powi (c + 24 - 23) = of_int 8388608"
      unfolding xe by (simp add: power_int_add)
    then have "rne (x / 2 powi (binade x - 23)) = 8388608"
      unfolding b by (simp only: rne_of_int)
    then have "fl32 x = 2 powi (c + 24 - 23) * 8388608"
      using x b by (simp add: fl32_pos_eq)
    also have "\<dots> = x" unfolding xe by (simp add: power_int_add)
    finally show ?thesis unfolding x_def .
  next
    case False
    then have "n < 16777216" using assms(2) by simp
    then have "real_of_int n < of_int 16777216" by (simp only: of_int_less_iff)
    then have n3: "real_of_int n < 16777216" by simp
    have "2 powi (c + 23) \<le> x" using n1 p by (simp add: x_def power_int_add)
    moreover have "x < 2 powi (c + 23 + 1)" using n3 p by (simp add: x_def power_int_add)
    ultimately have b: "binade x = c + 23" using binade_iff[OF x, of "c + 23"] by simp
    have "x / 2 powi (c + 23 - 23) = of_int n" by (simp add: x_def)
    then have "rne (x / 2 powi (binade x - 23)) = n" unfolding b by (simp only: rne_of_int)
    then have "fl32 x = x" using x b by (simp add: fl32_pos_eq x_def)
    then show ?thesis unfolding x_def .
  qed
qed

lemma fl32_idem: "0 \<le> x \<Longrightarrow> fl32 (fl32 x) = fl32 x"
proof (cases "x = 0")
  case True
  then show ?thesis by simp
next
  case False
  assume "0 \<le> x"
  with False have x: "0 < x" by simp
  show ?thesis
    unfolding fl32_pos_eq[OF x]
    by (rule fl32_representable) (use rne_scaled_bounds[OF x] in simp_all)
qed

lemma fl32_one [simp]: "fl32 1 = 1"
  using fl32_representable[of 8388608 "- 23"] by (simp add: power_int_minus)

lemma fl32_small_int:
  assumes "0 < n" "n \<le> 16777216"
  shows "fl32 (2 powi c * of_int n) = 2 powi c * of_int n"
  using assms
proof (induction "nat (16777216 - n)" arbitrary: n c rule: less_induct)
  case less
  show ?case
  proof (cases "8388608 \<le> n")
    case True
    then show ?thesis using less.prems(2) by (rule fl32_representable)
  next
    case False
    have "nat (16777216 - 2 * n) < nat (16777216 - n)" using less.prems False by simp
    moreover have "0 < 2 * n" "2 * n \<le> 16777216" using less.prems False by simp_all
    ultimately have "fl32 (2 powi (c - 1) * of_int (2 * n)) = 2 powi (c - 1) * of_int (2 * n)"
      by (rule less.hyps)
    then have ih: "fl32 (2 powi (c - 1) * (2 * of_int n)) = 2 powi (c - 1) * (2 * of_int n)"
      by simp
    have e: "(2::real) powi (c - 1) * (2 * of_int n) = 2 powi c * of_int n"
      by (simp add: power_int_diff)
    show ?thesis using ih unfolding e .
  qed
qed

lemma fl32_tie_step:
  assumes "even n" "8388608 \<le> n" "n \<le> 16775190"
  shows "fl32 (of_int n / 16777216 + 4051 / 33554432) = of_int (n + 2026) / 16777216"
proof -
  define x :: real where "x = of_int n / 16777216 + 4051 / 33554432"
  have "real_of_int 8388608 \<le> of_int n" using assms(2) by (simp only: of_int_le_iff)
  then have n1: "8388608 \<le> real_of_int n" by simp
  have "real_of_int n \<le> of_int 16775190" using assms(3) by (simp only: of_int_le_iff)
  then have n2: "real_of_int n \<le> 16775190" by simp
  have x: "0 < x" unfolding x_def using n1 by linarith
  have p: "(2::real) powi (- 1) = 1 / 2" "(2::real) powi (- 1 + 1) = 1"
    "(2::real) powi (- 1 - 23) = 1 / 16777216"
    by (simp_all add: power_int_minus)
  have "1 / 2 \<le> x \<and> x < 1" unfolding x_def using n1 n2 by linarith
  then have b: "binade x = - 1" using binade_iff[OF x, of "- 1"] unfolding p by simp
  have sc: "x / (1 / 16777216) = of_int (n + 2025) + 1 / 2"
    unfolding x_def by simp
  have fl: "\<lfloor>of_int (n + 2025) + (1 / 2 :: real)\<rfloor> = n + 2025"
    by (rule floor_unique) simp_all
  have "odd (n + 2025)" using assms(1) by simp
  then have r: "rne (of_int (n + 2025) + 1 / 2) = n + 2025 + 1"
    unfolding rne_def fl by simp
  have "fl32 x = 2 powi (binade x - 23) * of_int (rne (x / 2 powi (binade x - 23)))"
    using x by (rule fl32_pos_eq)
  also have "\<dots> = 1 / 16777216 * of_int (n + 2025 + 1)"
    unfolding b p sc r ..
  finally show ?thesis unfolding x_def by simp
qed

text \<open>The roundings that the examples below run through.\<close>

lemma fl32_values:
  "fl32 (1 / 4) = 1 / 4" "fl32 (1 / 2) = 1 / 2" "fl32 (3 / 4) = 3 / 4"
  "fl32 (1 / 5) = 13421773 / 67108864"
  "fl32 (13421773 / 67108864) = 13421773 / 67108864"
  "fl32 (13421773 / 33554432) = 13421773 / 33554432"
  "fl32 (40265319 / 67108864) = 5033165 / 8388608"
  "fl32 (53687093 / 67108864) = 13421773 / 16777216"
  by code_simp+

section \<open>Auxiliary facts\<close>

lemma vec_at_in: "0 \<le> i \<Longrightarrow> i < int (length xs) \<Longrightarrow> vec_at xs i = Inr (xs ! nat i)"
  by (simp add: vec_at_def)

lemma delta_loop_scan:
  assumes "0 \<le> i" and "m + k \<le> int (length U)"
  shows "\<exists>d. delta_loop U u k m i = Inr d \<and>
           ((d = - 1 \<and> (\<forall>j. i \<le> j \<and> j < m + k - 1 \<longrightarrow> \<not> in_span U u j)) \<or>
            (i \<le> d \<and> d < m + k - 1 \<and> in_span U u d \<and> (\<forall>j. i \<le> j \<and> j < d \<longrightarrow> \<not> in_span U u j)))"
  using assms
proof (induction U u k m i rule: delta_loop.induct)
  case (1 U u k m i)
  show ?case
  proof (cases "i < m + k - 1")
    case False
    then show ?thesis by (subst delta_loop.simps) auto
  next
    case True
    have a: "vec_at U i = Inr (U ! nat i)" and b: "vec_at U (i + 1) = Inr (U ! nat (i + 1))"
      using True "1.prems" by (simp_all add: vec_at_in)
    show ?thesis
    proof (cases "in_span U u i")
      case True
      then have "delta_loop U u k m i = Inr i"
        using \<open>i < m + k - 1\<close> a b by (subst delta_loop.simps) (simp add: in_span_def)
      then show ?thesis using True \<open>i < m + k - 1\<close> by auto
    next
      case False
      have step: "delta_loop U u k m i = delta_loop U u k m (i + 1)"
        using \<open>i < m + k - 1\<close> a b False by (subst delta_loop.simps) (auto simp: in_span_def)
      have "\<exists>d. delta_loop U u k m (i + 1) = Inr d \<and>
           ((d = - 1 \<and> (\<forall>j. i + 1 \<le> j \<and> j < m + k - 1 \<longrightarrow> \<not> in_span U u j)) \<or>
            (i + 1 \<le> d \<and> d < m + k - 1 \<and> in_span U u d \<and> (\<forall>j. i + 1 \<le> j \<and> j < d \<longrightarrow> \<not> in_span U u j)))"
      proof (cases "U ! nat i \<le> u")
        case True
        then have nb: "\<not> u < U ! nat (i + 1)" using False by (simp add: in_span_def)
        show ?thesis
          using "1.IH"(1)[OF \<open>i < m + k - 1\<close> a _ b nb] True "1.prems" by simp
      next
        case False
        show ?thesis
          using "1.IH"(2)[OF \<open>i < m + k - 1\<close> a] False "1.prems" by simp
      qed
      then obtain d where d: "delta_loop U u k m (i + 1) = Inr d"
        and r: "(d = - 1 \<and> (\<forall>j. i + 1 \<le> j \<and> j < m + k - 1 \<longrightarrow> \<not> in_span U u j)) \<or>
            (i + 1 \<le> d \<and> d < m + k - 1 \<and> in_span U u d \<and> (\<forall>j. i + 1 \<le> j \<and> j < d \<longrightarrow> \<not> in_span U u j))"
        by blast
      have nx: "\<not> in_span U u j \<or> i + 1 \<le> j" if "i \<le> j" for j
        using that False by (cases "j = i") auto
      have "(d = - 1 \<and> (\<forall>j. i \<le> j \<and> j < m + k - 1 \<longrightarrow> \<not> in_span U u j)) \<or>
            (i \<le> d \<and> d < m + k - 1 \<and> in_span U u d \<and> (\<forall>j. i \<le> j \<and> j < d \<longrightarrow> \<not> in_span U u j))"
        using r
      proof
        assume "d = - 1 \<and> (\<forall>j. i + 1 \<le> j \<and> j < m + k - 1 \<longrightarrow> \<not> in_span U u j)"
        then show ?thesis using nx by blast
      next
        assume h: "i + 1 \<le> d \<and> d < m + k - 1 \<and> in_span U u d \<and> (\<forall>j. i + 1 \<le> j \<and> j < d \<longrightarrow> \<not> in_span U u j)"
        then have "i \<le> d" by simp
        then show ?thesis using h nx by blast
      qed
      then show ?thesis using step d by simp
    qed
  qed
qed

lemma span_exists:
  assumes "0 \<le> a" "a \<le> b" "U ! nat a \<le> u" "u < U ! nat (b + 1)"
  shows "\<exists>j. a \<le> j \<and> j \<le> b \<and> in_span U u j"
  using assms
proof (induction "nat (b - a)" arbitrary: b)
  case 0
  then have "b = a" by simp
  then show ?case using 0 by (auto simp: in_span_def)
next
  case (Suc n)
  show ?case
  proof (cases "U ! nat b \<le> u")
    case True
    then have "in_span U u b" using Suc.prems by (simp add: in_span_def)
    then show ?thesis using Suc.prems by blast
  next
    case False
    have "n = nat (b - 1 - a)" using Suc.hyps(2) by simp
    moreover have "a \<le> b - 1" using Suc.hyps(2) by simp
    moreover have "u < U ! nat (b - 1 + 1)" using False by simp
    ultimately obtain j where "a \<le> j" "j \<le> b - 1" "in_span U u j"
      using Suc.hyps(1)[of "b - 1"] Suc.prems by blast
    then show ?thesis by (intro exI[of _ j]) simp
  qed
qed

lemma fknot_value_zero: "1 \<le> k \<Longrightarrow> int j < k \<Longrightarrow> fknot_value k m j = 0"
  by (cases j) simp_all

lemma fknot_value_one: "1 \<le> k \<Longrightarrow> k \<le> int j \<Longrightarrow> m + 1 \<le> int j \<Longrightarrow> fknot_value k m j = 1"
  by (cases j) simp_all

lemma fknot_value_step:
  assumes "1 \<le> k" "k \<le> i" "i < m + 1"
  shows "fknot_value k m (nat i) =
           fl32 (fknot_value k m (nat (i - 1)) + fl32 (1 / (real_of_int m - real_of_int k + 2)))"
proof -
  have "nat i = Suc (nat (i - 1))" using assms by simp
  moreover have "int (Suc (nat (i - 1))) = i" using assms by simp
  ultimately show ?thesis using assms by (simp del: of_nat_Suc)
qed

lemma fknot_value_fl32: "0 \<le> fknot_value k m j \<and> fl32 (fknot_value k m j) = fknot_value k m j"
proof (induction j)
  case 0
  show ?case by simp
next
  case (Suc j)
  show ?case
  proof (cases "k \<le> int (Suc j) \<and> int (Suc j) < m + 1")
    case True
    then have "0 \<le> 1 / (real_of_int m - real_of_int k + 2)" by simp
    then have sp: "0 \<le> fl32 (1 / (real_of_int m - real_of_int k + 2))" by (rule fl32_nonneg)
    then have arg: "0 \<le> fknot_value k m j + fl32 (1 / (real_of_int m - real_of_int k + 2))"
      using Suc.IH by simp
    show ?thesis using True fl32_nonneg[OF arg] fl32_idem[OF arg] by (simp del: of_nat_Suc)
  next
    case False
    then show ?thesis by (auto simp del: of_nat_Suc)
  qed
qed

lemma fknot_value_Suc_mono:
  assumes "1 \<le> k" "int (Suc j) \<le> m"
  shows "fknot_value k m j \<le> fknot_value k m (Suc j)"
proof (cases "int (Suc j) < k")
  case True
  then have "fknot_value k m j = 0" using assms(1) by (intro fknot_value_zero) simp_all
  then show ?thesis using True by (simp del: of_nat_Suc)
next
  case False
  then have "0 \<le> 1 / (real_of_int m - real_of_int k + 2)" using assms(2) by simp
  then have sp: "0 \<le> fl32 (1 / (real_of_int m - real_of_int k + 2))" by (rule fl32_nonneg)
  have "fl32 (fknot_value k m j)
      \<le> fl32 (fknot_value k m j + fl32 (1 / (real_of_int m - real_of_int k + 2)))"
    using sp fknot_value_fl32[of k m j] by (intro fl32_mono) simp_all
  then show ?thesis using False assms(2) fknot_value_fl32[of k m j] by (simp del: of_nat_Suc)
qed

lemma fknot_value_mono:
  assumes "1 \<le> k" "i \<le> j" "int j \<le> m"
  shows "fknot_value k m i \<le> fknot_value k m j"
  using assms(2,3)
proof (induction j)
  case 0
  then show ?case by simp
next
  case (Suc j)
  show ?case
  proof (cases "i = Suc j")
    case True
    then show ?thesis by simp
  next
    case False
    then have "i \<le> j" "int j \<le> m" using Suc.prems by simp_all
    then have "fknot_value k m i \<le> fknot_value k m j" by (rule Suc.IH)
    also have "\<dots> \<le> fknot_value k m (Suc j)"
      using assms(1) Suc.prems(2) by (rule fknot_value_Suc_mono)
    finally show ?thesis .
  qed
qed

lemma fknots_length: "length (fknots k m) = nat (m + k + 1)"
  by (simp add: fknots_def)

lemma fknots_nth: "j < nat (m + k + 1) \<Longrightarrow> fknots k m ! j = fknot_value k m j"
  by (simp add: fknots_def)

lemma standardKnot_loop_closed:
  assumes "1 \<le> k" "0 \<le> i" "U = map (fknot_value k m) [0..<nat i]"
  shows "standardKnot_loop (of_int k) (of_int m) (spacing_of k m) i U =
           Inr (map (fknot_value k m) [0..<nat (max i (m + k + 1))])"
  using assms(2,3)
proof (induction "nat (m + k + 1 - i)" arbitrary: i U)
  case 0
  then have "\<not> i < m + k + 1" by simp
  then have "\<not> real_of_int i < real_of_int m + real_of_int k + 1" by linarith
  moreover have "max i (m + k + 1) = i" using \<open>\<not> i < m + k + 1\<close> by simp
  ultimately show ?case using 0 by (subst standardKnot_loop.simps) simp
next
  case (Suc n)
  then have lt: "i < m + k + 1" by simp
  then have ltr: "real_of_int i < real_of_int m + real_of_int k + 1" by linarith
  have mx: "max (i + 1) (m + k + 1) = max i (m + k + 1)" using lt by simp
  have n: "n = nat (m + k + 1 - (i + 1))" using Suc.hyps(2) by simp
  have up: "[0..<nat (i + 1)] = [0..<nat i] @ [nat i]"
    using Suc.prems(1) by (simp add: nat_add_distrib)
  have len: "int (length U) = i" using Suc.prems by simp
  show ?case
  proof (cases "i < k")
    case True
    then have "U @ [0] = map (fknot_value k m) [0..<nat (i + 1)]"
      using Suc.prems up assms(1) by (simp add: fknot_value_zero)
    from Suc.hyps(1)[OF n _ this] Suc.prems(1) mx True ltr show ?thesis
      by (subst standardKnot_loop.simps) simp
  next
    case False
    show ?thesis
    proof (cases "i < m + 1")
      case True
      have at: "vec_at U (i - 1) = Inr (fknot_value k m (nat (i - 1)))"
        using False assms(1) len Suc.prems by (simp add: vec_at_def)
      have ne: "real_of_int m - real_of_int k + 2 \<noteq> 0" using True False by linarith
      have "U @ [fl32 (fknot_value k m (nat (i - 1)) + fl32 (1 / (real_of_int m - real_of_int k + 2)))] =
              map (fknot_value k m) [0..<nat (i + 1)]"
        using Suc.prems up fknot_value_step[of k i m] False True assms(1) by simp
      from Suc.hyps(1)[OF n _ this] Suc.prems(1) mx True False ltr at ne show ?thesis
        by (subst standardKnot_loop.simps) (simp add: spacing_of_def)
    next
      case nlt: False
      have "U @ [1] = map (fknot_value k m) [0..<nat (i + 1)]"
        using Suc.prems up False nlt assms(1) by (simp add: fknot_value_one)
      from Suc.hyps(1)[OF n _ this] Suc.prems(1) mx nlt False ltr show ?thesis
        by (subst standardKnot_loop.simps) simp
    qed
  qed
qed

lemma standardKnot_closed:
  assumes "1 \<le> k"
  shows "standardKnot (of_int k) (of_int m) = Inr (fknots k m)"
proof -
  have "max 0 (m + k + 1) = m + k + 1 \<or> m + k + 1 < 0" by linarith
  then have "nat (max 0 (m + k + 1)) = nat (m + k + 1)" by auto
  then show ?thesis
    using standardKnot_loop_closed[OF assms, of 0 "[]" m]
    by (simp add: standardKnot_def spacing_of_def fknots_def)
qed

lemma fknots_clamped:
  assumes "1 \<le> k" "0 \<le> m"
  shows "clamped (fknots k m) k m"
  unfolding clamped_def
proof (intro conjI allI impI)
  show "int (length (fknots k m)) = m + k + 1" using assms by (simp add: fknots_length)
next
  fix j assume "0 \<le> j \<and> j < k"
  then show "fknots k m ! nat j = 0"
    using assms by (simp add: fknots_nth fknot_value_zero)
next
  fix j assume "k \<le> j \<and> m + 1 \<le> j \<and> j < m + k + 1"
  then show "fknots k m ! nat j = 1"
    using assms by (simp add: fknots_nth fknot_value_one)
next
  fix i j assume h: "0 \<le> i \<and> i \<le> j \<and> j \<le> m"
  then have "nat i \<le> nat j" "int (nat j) \<le> m" by linarith+
  then have "fknot_value k m (nat i) \<le> fknot_value k m (nat j)"
    using assms(1) by (intro fknot_value_mono)
  then show "fknots k m ! nat i \<le> fknots k m ! nat j"
    using h assms by (simp add: fknots_nth)
qed

lemma delta_on_clamped:
  assumes "2 \<le> k" "k - 1 \<le> m" "clamped U k m" "0 \<le> u" "u < 1"
  shows "\<exists>d. delta U u k m = Inr d \<and> k - 1 \<le> d \<and> d \<le> m \<and> in_span U u d"
proof -
  have len: "int (length U) = m + k + 1"
    and zero: "\<And>j. 0 \<le> j \<and> j < k \<Longrightarrow> U ! nat j = 0"
    and one: "\<And>j. k \<le> j \<and> m + 1 \<le> j \<and> j < m + k + 1 \<Longrightarrow> U ! nat j = 1"
    using assms(3) unfolding clamped_def by blast+
  have lo: "U ! nat (k - 1) = 0" using assms(1) by (intro zero) simp
  have hi: "U ! nat (m + 1) = 1" using assms(1,2) by (intro one) simp
  obtain j where j: "k - 1 \<le> j" "j \<le> m" "in_span U u j"
    using span_exists[of "k - 1" m U u] assms lo hi by auto
  obtain d where d: "delta_loop U u k m 0 = Inr d"
    and r: "(d = - 1 \<and> (\<forall>j. 0 \<le> j \<and> j < m + k - 1 \<longrightarrow> \<not> in_span U u j)) \<or>
            (0 \<le> d \<and> d < m + k - 1 \<and> in_span U u d \<and> (\<forall>j. 0 \<le> j \<and> j < d \<longrightarrow> \<not> in_span U u j))"
    using delta_loop_scan[of 0 m k U u] len by auto
  have j0: "0 \<le> j \<and> j < m + k - 1" using j(1,2) assms(1) by simp
  then have "\<not> (\<forall>j. 0 \<le> j \<and> j < m + k - 1 \<longrightarrow> \<not> in_span U u j)" using j(3) by blast
  with r have dr: "0 \<le> d" "d < m + k - 1" "in_span U u d"
    "\<forall>j. 0 \<le> j \<and> j < d \<longrightarrow> \<not> in_span U u j" by auto
  have "k - 1 \<le> d"
  proof (rule ccontr)
    assume "\<not> k - 1 \<le> d"
    then have "U ! nat (d + 1) = 0" using dr(1) by (intro zero) simp
    then show False using dr(3) assms(4) by (simp add: in_span_def)
  qed
  moreover have "d \<le> m"
  proof (rule ccontr)
    assume "\<not> d \<le> m"
    then have "j < d" using j(2) by simp
    then show False using dr(4) j0 j(3) by blast
  qed
  ultimately show ?thesis using d dr by (auto simp: delta_def)
qed

lemma seed_loop_spec:
  assumes "0 \<le> i"
    and "\<forall>j. i \<le> j \<and> j < k - 1 \<longrightarrow> 0 \<le> d - j \<and> d - j < int (length E)"
  shows "seed_loop E d k i C = Inr (C @ map (\<lambda>j. E ! nat (d - int j)) [nat i..<nat (k - 1)])"
  using assms
proof (induction "nat (k - 1 - i)" arbitrary: i C)
  case 0
  then have "\<not> i < k - 1" by simp
  then show ?case by (subst seed_loop.simps) simp
next
  case (Suc n)
  then have lt: "i < k - 1" by simp
  have at: "vec_at E (d - i) = Inr (E ! nat (d - i))"
    using Suc.prems lt by (simp add: vec_at_def)
  have n: "n = nat (k - 1 - (i + 1))" using Suc.hyps(2) by simp
  have ih: "seed_loop E d k (i + 1) (C @ [E ! nat (d - i)]) =
      Inr ((C @ [E ! nat (d - i)]) @ map (\<lambda>j. E ! nat (d - int j)) [nat (i + 1)..<nat (k - 1)])"
    using Suc.hyps(1)[OF n] Suc.prems by simp
  have up: "[nat i..<nat (k - 1)] = nat i # [nat (i + 1)..<nat (k - 1)]"
    using lt Suc.prems(1) by (simp add: upt_conv_Cons nat_add_distrib)
  show ?case
    using lt at ih up Suc.prems(1) by (subst seed_loop.simps) simp
qed

lemma blend_combine_spec: "blend w P Q = combine_spec w P Q"
  by (cases P; cases Q) (simp add: blend_def combine_spec_def)

lemma length_blend_step_spec [simp]: "length (blend_step_spec U u d r C s) = length C"
  by (simp add: blend_step_spec_def)

lemma length_foldl_blend_step [simp]:
  "length (foldl (blend_step_spec U u d r) C ss) = length C"
  by (induction ss arbitrary: C) simp_all

lemma length_blend_row_spec [simp]: "length (blend_row_spec U u d C r) = length C"
  by (simp add: blend_row_spec_def)

lemma length_blend_spec [simp]: "length (blend_spec U u d k C) = length C"
proof -
  have "length (foldl (blend_row_spec U u d) C rs) = length C" for rs
    by (induction rs arbitrary: C) simp_all
  then show ?thesis by (simp add: blend_spec_def)
qed

lemma blend_inner_spec:
  assumes "blend_ok U d r" "r - 1 \<le> int (length C)"
  shows "blend_inner U u r (int n) (d - int n) C =
           Inr (foldl (blend_step_spec U u d r) C [n..<nat (r - 2)])"
  using assms(2)
proof (induction "nat (r - 2) - n" arbitrary: n C)
  case 0
  then have "\<not> int n < r - 2" by simp
  moreover have "[n..<nat (r - 2)] = []" using 0 by simp
  ultimately show ?case by (subst blend_inner.simps) simp
next
  case (Suc x)
  then have lt: "int n < r - 2" by simp
  have "0 \<le> int n \<and> int n < r - 2" using lt by simp
  with assms(1) have ok0: "0 \<le> d - int n \<and> d - int n + r - 1 < int (length U) \<and>
      U ! nat (d - int n) < U ! nat (d - int n + r - 1)"
    unfolding blend_ok_def by blast
  then have ok: "0 \<le> d - int n" "d - int n + r - 1 < int (length U)"
    "U ! nat (d - int n + r - 1) \<noteq> U ! nat (d - int n)"
    by simp_all
  have a1: "vec_at U (d - int n) = Inr (U ! nat (d - int n))"
    using ok lt by (simp add: vec_at_def)
  have a2: "vec_at U (d - int n + r - 1) = Inr (U ! nat (d - int n + r - 1))"
    using ok lt by (simp add: vec_at_def)
  have c1: "vec_at C (int n) = Inr (C ! n)" using lt Suc.prems by (simp add: vec_at_def)
  have c2: "vec_at C (int n + 1) = Inr (C ! (n + 1))"
    using lt Suc.prems by (simp add: vec_at_def nat_add_distrib)
  have st: "vec_set C (int n) v = Inr (C[n := v])" for v
    using lt Suc.prems by (simp add: vec_set_def)
  have x: "x = nat (r - 2) - Suc n" using Suc.hyps(2) by simp
  have ih: "blend_inner U u r (int (Suc n)) (d - int (Suc n)) (blend_step_spec U u d r C n) =
      Inr (foldl (blend_step_spec U u d r) (blend_step_spec U u d r C n) [Suc n..<nat (r - 2)])"
    using Suc.hyps(1)[OF x] Suc.prems by simp
  have up: "[n..<nat (r - 2)] = n # [Suc n..<nat (r - 2)]"
    using lt by (simp add: upt_conv_Cons)
  have arg: "int n + 1 = int (Suc n)" "d - int n - 1 = d - int (Suc n)" by simp_all
  have "blend_inner U u r (int n) (d - int n) C =
      blend_inner U u r (int n + 1) (d - int n - 1) (blend_step_spec U u d r C n)"
    using lt a1 a2 c1 c2 st ok(3)
    by (subst blend_inner.simps) (simp add: blend_step_spec_def omega_spec_def blend_combine_spec)
  then show ?case using ih up by (simp only: arg foldl_Cons)
qed

lemma blend_outer_spec:
  assumes "\<forall>r'. 3 \<le> r' \<and> r' \<le> r \<longrightarrow> blend_ok U d r'" "r - 1 \<le> int (length C)"
  shows "blend_outer U u d r C = Inr (foldl (blend_row_spec U u d) C (rev [3..r]))"
  using assms
proof (induction "nat (r - 2)" arbitrary: r C)
  case 0
  then have "\<not> r > 2" by simp
  moreover have "[3..r] = []" using 0 by simp
  ultimately show ?case by (subst blend_outer.simps) simp
next
  case (Suc x)
  then have gt: "r > 2" by simp
  then have ok: "blend_ok U d r" using Suc.prems(1) by simp
  have inner: "blend_inner U u r 0 d C = Inr (blend_row_spec U u d C r)"
    using blend_inner_spec[OF ok Suc.prems(2), of u 0] by (simp add: blend_row_spec_def)
  have x: "x = nat (r - 1 - 2)" using Suc.hyps(2) by simp
  have ih: "blend_outer U u d (r - 1) (blend_row_spec U u d C r) =
      Inr (foldl (blend_row_spec U u d) (blend_row_spec U u d C r) (rev [3..r - 1]))"
    using Suc.hyps(1)[OF x] Suc.prems by simp
  have up: "[3..r] = [3..r - 1] @ [r]" using gt by (simp add: upto_rec2)
  show ?case using gt inner ih up by (subst blend_outer.simps) simp
qed

lemma clamped_blend_ok:
  assumes "2 \<le> k" "k - 1 \<le> m" "clamped U k m" "k - 1 \<le> d" "d \<le> m" "in_span U u d" "u < 1"
    and "3 \<le> r" "r \<le> k"
  shows "blend_ok U d r"
  unfolding blend_ok_def
proof (intro allI impI)
  fix j assume j: "0 \<le> j \<and> j < r - 2"
  have len: "int (length U) = m + k + 1"
    and one: "\<And>j. k \<le> j \<and> m + 1 \<le> j \<and> j < m + k + 1 \<Longrightarrow> U ! nat j = 1"
    and mono: "\<And>i j. 0 \<le> i \<and> i \<le> j \<and> j \<le> m \<Longrightarrow> U ! nat i \<le> U ! nat j"
    using assms(3) unfolding clamped_def by blast+
  have lo: "0 \<le> d - j" using j assms by simp
  have hi: "d - j + r - 1 < int (length U)" using j assms len by simp
  have below: "U ! nat (d - j) \<le> U ! nat d" using j lo assms(5) by (intro mono) simp
  have span: "U ! nat d \<le> u" "u < U ! nat (d + 1)" using assms(6) by (simp_all add: in_span_def)
  have above: "u < U ! nat (d - j + r - 1)"
  proof (cases "d - j + r - 1 \<le> m")
    case True
    have "U ! nat (d + 1) \<le> U ! nat (d - j + r - 1)"
      using True j assms(4) assms(1) by (intro mono) simp
    then show ?thesis using span(2) by simp
  next
    case False
    have "U ! nat (d - j + r - 1) = 1"
      using False j hi len assms(4) by (intro one) simp
    then show ?thesis using assms(7) by simp
  qed
  show "0 \<le> d - j \<and> d - j + r - 1 < int (length U) \<and> U ! nat (d - j) < U ! nat (d - j + r - 1)"
    using lo hi below span(1) above by simp
qed

lemma curvePoint_on_clamped:
  assumes "2 \<le> k" "k - 1 \<le> m" "clamped U k m" "int (length E) = m + 1" "0 \<le> u" "u < 1"
  shows "\<exists>d. delta U u k m = Inr d \<and> k - 1 \<le> d \<and> d \<le> m \<and> in_span U u d \<and>
           curvePoint E U k m u = Inr (point_spec E U k d u)"
proof -
  from delta_on_clamped[OF assms(1,2,3,5,6)] obtain d where
    d: "delta U u k m = Inr d" "k - 1 \<le> d" "d \<le> m" "in_span U u d" by blast
  have "seed_loop E d k 0 [] = Inr ([] @ map (\<lambda>j. E ! nat (d - int j)) [nat 0..<nat (k - 1)])"
    using d assms by (intro seed_loop_spec) auto
  then have seed: "seed_loop E d k 0 [] = Inr (seed_spec E d k)"
    by (simp add: seed_spec_def)
  have lenC: "int (length (seed_spec E d k)) = k - 1" using assms(1) by (simp add: seed_spec_def)
  have ok: "\<forall>r'. 3 \<le> r' \<and> r' \<le> k \<longrightarrow> blend_ok U d r'"
    using clamped_blend_ok[OF assms(1,2,3) d(2,3,4) assms(6)] by blast
  have outer: "blend_outer U u d k (seed_spec E d k) = Inr (blend_spec U u d k (seed_spec E d k))"
    using blend_outer_spec[OF ok, of "seed_spec E d k" u] lenC by (simp add: blend_spec_def)
  have "vec_at (blend_spec U u d k (seed_spec E d k)) 0 = Inr (point_spec E U k d u)"
    using lenC assms(1) by (simp add: vec_at_def point_spec_def)
  then have "curvePoint E U k m u = Inr (point_spec E U k d u)"
    using d(1) seed outer by (simp add: curvePoint_def)
  then show ?thesis using d by blast
qed

lemma sample_loop_spec:
  assumes "0 < u_inc" "vec_at U (m + 1) = Inr hi"
    and "\<forall>u'. lo \<le> u' \<and> u' < hi \<longrightarrow> curvePoint E U k m u' = Inr (pt u')"
    and "lo \<le> u"
  shows "sample_loop E U k m u_inc u g =
           Some (Inr (g\<lparr>verts := verts g @ map (\<lambda>j. pt (u + real j * u_inc)) [0..<nat \<lceil>(hi - u) / u_inc\<rceil>],
                        cols := cols g @ replicate (nat \<lceil>(hi - u) / u_inc\<rceil>) curveColour\<rparr>))"
  using assms(4)
proof (induction "nat \<lceil>(hi - u) / u_inc\<rceil>" arbitrary: u g)
  case 0
  then have "(hi - u) / u_inc \<le> 0" by (simp add: ceiling_le_iff)
  then have "\<not> u < hi" using assms(1) by (simp add: divide_le_0_iff)
  then show ?case using assms(2) 0 by (subst sample_loop.simps) simp
next
  case (Suc n)
  then have "0 < \<lceil>(hi - u) / u_inc\<rceil>" by linarith
  then have "0 < (hi - u) / u_inc" by (simp add: less_ceiling_iff)
  then have lt: "u < hi" using assms(1) by (simp add: zero_less_divide_iff)
  have pt: "curvePoint E U k m u = Inr (pt u)" using assms(3) Suc.prems lt by simp
  have "(hi - (u + u_inc)) / u_inc = (hi - u) / u_inc - 1"
    using assms(1) by (simp add: field_simps)
  then have c: "\<lceil>(hi - (u + u_inc)) / u_inc\<rceil> = \<lceil>(hi - u) / u_inc\<rceil> - 1" by simp
  then have n: "n = nat \<lceil>(hi - (u + u_inc)) / u_inc\<rceil>" using Suc.hyps(2) by simp
  have N: "nat \<lceil>(hi - u) / u_inc\<rceil> = Suc n" using Suc.hyps(2) by simp
  have le: "lo \<le> u + u_inc" using Suc.prems assms(1) by simp
  have sh: "u + u_inc + real j * u_inc = u + real (Suc j) * u_inc" for j
    by (simp add: algebra_simps)
  have "sample_loop E U k m u_inc u g =
      sample_loop E U k m u_inc (u + u_inc)
        (g\<lparr>verts := verts g @ [pt u], cols := cols g @ [curveColour]\<rparr>)"
    using assms(2) lt pt by (subst sample_loop.simps) simp
  also have "\<dots> = Some (Inr (g\<lparr>verts := verts g @ map (\<lambda>j. pt (u + real j * u_inc)) [0..<Suc n],
                        cols := cols g @ replicate (Suc n) curveColour\<rparr>))"
    using Suc.hyps(1)[OF n le, of "g\<lparr>verts := verts g @ [pt u], cols := cols g @ [curveColour]\<rparr>"]
    by (simp add: n[symmetric] sh map_upt_Suc del: upt_Suc of_nat_Suc)
  finally show ?case by (simp only: N)
qed


lemma clamped_ends:
  assumes "2 \<le> k" "1 \<le> m" "clamped U k m"
  shows "vec_at U (k - 1) = Inr 0"
    and "vec_at U (m + 1) = Inr (if m < k - 1 then 0 else 1)"
    and "U ! nat (k - 1) = 0"
    and "U ! nat (m + 1) = (if m < k - 1 then 0 else 1)"
proof -
  have len: "int (length U) = m + k + 1"
    and zero: "\<And>j. 0 \<le> j \<and> j < k \<Longrightarrow> U ! nat j = 0"
    and one: "\<And>j. k \<le> j \<and> m + 1 \<le> j \<and> j < m + k + 1 \<Longrightarrow> U ! nat j = 1"
    using assms(3) unfolding clamped_def by blast+
  show a: "U ! nat (k - 1) = 0" using assms(1) by (intro zero) simp
  show b: "U ! nat (m + 1) = (if m < k - 1 then 0 else 1)"
  proof (cases "m < k - 1")
    case True
    then have "U ! nat (m + 1) = 0" using assms(2) by (intro zero) simp
    then show ?thesis using True by simp
  next
    case False
    then have "U ! nat (m + 1) = 1" using assms(1) by (intro one) simp
    then show ?thesis using False by simp
  qed
  show "vec_at U (k - 1) = Inr 0" using a assms len by (simp add: vec_at_def)
  show "vec_at U (m + 1) = Inr (if m < k - 1 then 0 else 1)"
    using b assms len by (simp add: vec_at_def)
qed

lemma efficientBSpline_on_clamped:
  assumes "2 \<le> k" "1 \<le> m" "clamped U k m" "int (length E) = m + 1" "0 < u_inc"
  shows "efficientBSpline E U M k m u_inc =
           Some (Inr \<lparr>verts = map (\<lambda>j. point_of (curvePoint E U k m (real j * u_inc)))
                               [0..<nat \<lceil>(if m < k - 1 then 0 else 1) / u_inc\<rceil>],
                      cols = replicate (nat \<lceil>(if m < k - 1 then 0 else 1) / u_inc\<rceil>) curveColour\<rparr>)"
proof -
  let ?hi = "(if m < k - 1 then 0 else 1) :: real"
  have pts: "\<forall>u'. 0 \<le> u' \<and> u' < ?hi \<longrightarrow>
      curvePoint E U k m u' = Inr (point_of (curvePoint E U k m u'))"
  proof (intro allI impI)
    fix u' assume u': "0 \<le> u' \<and> u' < ?hi"
    then have km: "k - 1 \<le> m" by (simp split: if_splits)
    with u' have "u' < 1" by simp
    with curvePoint_on_clamped[OF assms(1) km assms(3,4), of u'] u'
    obtain p where "curvePoint E U k m u' = Inr p" by blast
    then show "curvePoint E U k m u' = Inr (point_of (curvePoint E U k m u'))"
      by (simp add: point_of_def)
  qed
  have "sample_loop E U k m u_inc 0 emptyGeom =
      Some (Inr (emptyGeom\<lparr>verts := verts emptyGeom @
                   map (\<lambda>j. point_of (curvePoint E U k m (0 + real j * u_inc)))
                     [0..<nat \<lceil>(?hi - 0) / u_inc\<rceil>],
                 cols := cols emptyGeom @ replicate (nat \<lceil>(?hi - 0) / u_inc\<rceil>) curveColour\<rparr>))"
    using assms(5) clamped_ends(2)[OF assms(1,2,3)] pts
    by (intro sample_loop_spec[where lo = 0]) simp_all
  then show ?thesis
    using clamped_ends(1)[OF assms(1,2,3)] by (simp add: efficientBSpline_def emptyGeom_def)
qed

lemma standardKnot_clamped:
  assumes "2 \<le> k" "1 \<le> m" "standardKnot (of_int k) (of_int m) = Inr U"
  shows "clamped U k m"
proof -
  have "U = fknots k m" using assms(1,3) standardKnot_closed[of k m] by simp
  then show ?thesis using fknots_clamped[of k m] assms(1,2) by simp
qed

text \<open>Knot vectors of small inputs.\<close>

lemma standardKnot_3_5: "standardKnot 3 5 = Inr [0, 0, 0, 1 / 4, 1 / 2, 3 / 4, 1, 1, 1]"
  by (simp add: standardKnot_def vec_at_def fl32_values)

lemma standardKnot_2_5:
  "standardKnot 2 5 =
     Inr [0, 0, 13421773 / 67108864, 13421773 / 33554432, 5033165 / 8388608,
          13421773 / 16777216, 1, 1]"
  by (simp add: standardKnot_def vec_at_def fl32_values)

lemma standardKnot_3_3: "standardKnot 3 3 = Inr [0, 0, 0, 1 / 2, 1, 1, 1]"
  by (simp add: standardKnot_def vec_at_def fl32_values)

text \<open>
  The knot vector for \<open>k = 2\<close>, \<open>m = 8283\<close>. The rounded spacing is \<open>4051 / 2\<^sup>2\<^sup>5\<close>. Up to
  the value \<open>1 / 2\<close> every sum is a binary32 value and the additions are exact. From there on
  the unit in the last place is \<open>2\<^sup>-\<^sup>2\<^sup>4\<close>, the spacing is \<open>2025.5\<close> units, every sum is a
  tie, and from the second such sum on the tie goes up to the even neighbour: each step adds
  \<open>2026\<close> units. After \<open>8282\<close> additions the last interior knot is above \<open>1\<close>.
\<close>

lemma fl32_values_8283:
  "fl32 (1 / 8283) = 4051 / 33554432"
  "fl32 (8389621 / 16777216) = 8389621 / 16777216"
  "fl32 (16783293 / 33554432) = 4195823 / 8388608"
  "fl32 (33554519 / 33554432) = 4194315 / 4194304"
  by code_simp+

lemma fknot_8283_Suc:
  assumes "1 \<le> j" "j \<le> 8282"
  shows "fknot_value 2 8283 (Suc j) = fl32 (fknot_value 2 8283 j + 4051 / 33554432)"
  using assms by (simp add: fl32_values_8283 del: of_nat_Suc)

lemma fknot_8283_phase1:
  "j \<le> 4141 \<Longrightarrow> fknot_value 2 8283 (Suc j) = real j * 4051 / 33554432"
proof (induction j)
  case 0
  show ?case by simp
next
  case (Suc j)
  then have ih: "fknot_value 2 8283 (Suc j) = real j * 4051 / 33554432" by simp
  define n where "n = int (Suc j) * 4051"
  have n: "0 < n" "n \<le> 16777216" using Suc.prems by (simp_all add: n_def)
  have p: "(2::real) powi (- 25) = 1 / 33554432" by (simp add: power_int_minus)
  have e: "real j * 4051 / 33554432 + 4051 / 33554432 = 2 powi (- 25) * of_int n"
    unfolding p n_def by (simp add: field_simps)
  have "fknot_value 2 8283 (Suc (Suc j)) = fl32 (fknot_value 2 8283 (Suc j) + 4051 / 33554432)"
    using Suc.prems by (intro fknot_8283_Suc) simp_all
  also have "\<dots> = 2 powi (- 25) * of_int n"
    unfolding ih e using n by (rule fl32_small_int)
  also have "\<dots> = real (Suc j) * 4051 / 33554432"
    unfolding p n_def by simp
  finally show ?case .
qed

lemma fknot_8283_4143: "fknot_value 2 8283 4143 = 8389621 / 16777216"
proof -
  have "fknot_value 2 8283 (Suc 4141) = real 4141 * 4051 / 33554432"
    by (intro fknot_8283_phase1) simp
  then have a: "fknot_value 2 8283 4142 = 16775191 / 33554432" by simp
  have "fknot_value 2 8283 (Suc 4142) = fl32 (fknot_value 2 8283 4142 + 4051 / 33554432)"
    by (intro fknot_8283_Suc) simp_all
  then show ?thesis unfolding a by (simp add: fl32_values_8283)
qed

lemma fknot_8283_4144: "fknot_value 2 8283 4144 = 4195823 / 8388608"
proof -
  have "fknot_value 2 8283 (Suc 4143) = fl32 (fknot_value 2 8283 4143 + 4051 / 33554432)"
    by (intro fknot_8283_Suc) simp_all
  then show ?thesis unfolding fknot_8283_4143 by (simp add: fl32_values_8283)
qed

lemma fknot_8283_phase2:
  "t \<le> 4138 \<Longrightarrow>
     fknot_value 2 8283 (Suc (4143 + t)) = real_of_int (8391646 + 2026 * int t) / 16777216"
proof (induction t)
  case 0
  show ?case using fknot_8283_4144 by simp
next
  case (Suc t)
  then have ih: "fknot_value 2 8283 (Suc (4143 + t)) =
      real_of_int (8391646 + 2026 * int t) / 16777216" by simp
  have "fknot_value 2 8283 (Suc (Suc (4143 + t))) =
      fl32 (fknot_value 2 8283 (Suc (4143 + t)) + 4051 / 33554432)"
    using Suc.prems by (intro fknot_8283_Suc) simp_all
  also have "\<dots> = real_of_int (8391646 + 2026 * int t + 2026) / 16777216"
    unfolding ih using Suc.prems by (intro fl32_tie_step) simp_all
  finally show ?case by (simp add: algebra_simps)
qed

lemma fknot_8283_top: "fknot_value 2 8283 8283 = 4194315 / 4194304"
proof -
  have "fknot_value 2 8283 (Suc (4143 + 4138)) = real_of_int (8391646 + 2026 * int 4138) / 16777216"
    by (intro fknot_8283_phase2) simp
  then have a: "fknot_value 2 8283 8282 = 8387617 / 8388608" by simp
  have "fknot_value 2 8283 (Suc 8282) = fl32 (fknot_value 2 8283 8282 + 4051 / 33554432)"
    by (intro fknot_8283_Suc) simp_all
  then show ?thesis unfolding a by (simp add: fl32_values_8283)
qed

lemma fknots_8283_descent:
  "standardKnot 2 8283 = Inr (fknots 2 8283)"
  "fknots 2 8283 ! 8283 = 4194315 / 4194304"
  "fknots 2 8283 ! 8284 = 1"
  "fknots 2 8283 ! 1 = 0"
  "fknots 2 8283 ! 2 = 4051 / 33554432"
proof -
  show "standardKnot 2 8283 = Inr (fknots 2 8283)"
    using standardKnot_closed[of 2 8283] by simp
  show "fknots 2 8283 ! 8283 = 4194315 / 4194304"
    by (simp add: fknots_nth fknot_8283_top)
  show "fknots 2 8283 ! 8284 = 1"
    by (simp add: fknots_nth fknot_value_one)
  show "fknots 2 8283 ! 1 = 0"
    by (simp add: fknots_nth fknot_value_zero)
  have "fknot_value 2 8283 (Suc 1) = 1 * 4051 / 33554432"
    using fknot_8283_phase1[of 1] by simp
  then show "fknots 2 8283 ! 2 = 4051 / 33554432"
    by (simp add: fknots_nth numeral_2_eq_2)
qed

text \<open>
  The reference recurrence on a quadratic Bezier segment (\<open>k = 3\<close>, three control points):
  at \<open>u = 1 / 2\<close> it gives \<open>E\<^sub>0 / 4 + E\<^sub>1 / 2 + E\<^sub>2 / 4\<close>.
\<close>

lemma deBoor_quadratic_bezier:
  "deBoor_point [Vec3 0 0 0, Vec3 1 0 0, Vec3 1 1 0] [0, 0, 0, 1, 1, 1] 3 2 (1 / 2) =
     Vec3 (3 / 4) (1 / 4) 0"
  by (simp add: deBoor_point_def blend_def numeral_2_eq_2)

text \<open>With two control points and \<open>k = 2\<close> every parameter of the domain evaluates to \<open>E[1]\<close>.\<close>

lemma two_point_curvePoint:
  assumes "0 \<le> u" "u < 1"
  shows "curvePoint [E0, E1] [0, 0, 1, 1] 2 1 u = Inr E1"
  using assms by (simp add: curvePoint_def delta_def vec_at_def)

text \<open>
  With three control points and \<open>k = 3\<close> the evaluation at \<open>u = 1 / 2\<close> is the midpoint of
  \<open>E[1]\<close> and \<open>E[2]\<close>. With four control points and \<open>k = 3\<close> the evaluated point runs
  from \<open>E[1]\<close> towards the midpoint of \<open>E[1]\<close> and \<open>E[2]\<close> on the first span and is
  \<open>E[2]\<close> at the start of the second.
\<close>

lemma three_point_curvePoint:
  "curvePoint [Vec3 0 0 0, Vec3 1 0 0, Vec3 1 1 0] [0, 0, 0, 1, 1, 1] 3 2 (1 / 2) =
     Inr (Vec3 1 (1 / 2) 0)"
  by (simp add: curvePoint_def delta_def vec_at_def vec_set_def blend_def)

lemma four_point_jump:
  "standardKnot 3 3 = Inr [0, 0, 0, 1 / 2, 1, 1, 1] \<and>
   curvePoint [Vec3 0 0 0, Vec3 1 0 0, Vec3 1 1 0, Vec3 2 1 0] [0, 0, 0, 1 / 2, 1, 1, 1] 3 3 (1 / 2) =
     Inr (Vec3 1 1 0)"
  using standardKnot_3_3 by (simp add: curvePoint_def delta_def vec_at_def vec_set_def blend_def)

lemma four_point_before_jump:
  assumes "0 \<le> u" "u < 1 / 2"
  shows "curvePoint [Vec3 0 0 0, Vec3 1 0 0, Vec3 1 1 0, Vec3 2 1 0] [0, 0, 0, 1 / 2, 1, 1, 1] 3 3 u =
     Inr (Vec3 1 u 0)"
  using assms by (simp add: curvePoint_def delta_def vec_at_def vec_set_def blend_def)

section \<open>The knot vector\<close>

text \<open>
  Claim C2, as binary32 arithmetic has it. For every integer \<open>k \<ge> 2\<close> and \<open>m \<ge> k - 1\<close>,
  \<^verbatim>\<open>standardKnot(k, m)\<close> returns a sequence of length \<open>m + k + 1\<close> that is \<open>0\<close> at the indices
  \<open>[0, k)\<close>, is \<open>1\<close> at the indices \<open>[m + 1, m + k + 1)\<close>, and at every index in
  \<open>[k, m + 1)\<close> is the rounded sum of the previous entry and the spacing, the spacing being
  the rounded quotient \<open>1 / (m - k + 2)\<close>. The sequence does not descend up to index \<open>m\<close>,
  and it is non-decreasing as a whole exactly when its entry at \<open>m\<close> is at most \<open>1\<close>.
\<close>

theorem standardKnot_clamped_rounded:
  assumes "2 \<le> k" "k - 1 \<le> m"
  shows "\<exists>U. standardKnot (of_int k) (of_int m) = Inr U \<and>
           int (length U) = m + k + 1 \<and>
           (\<forall>i. 0 \<le> i \<and> i < k \<longrightarrow> U ! nat i = 0) \<and>
           (\<forall>i. m + 1 \<le> i \<and> i < m + k + 1 \<longrightarrow> U ! nat i = 1) \<and>
           (\<forall>i. k \<le> i \<and> i < m + 1 \<longrightarrow>
                U ! nat i = fl32 (U ! nat (i - 1) + fl32 (1 / (of_int m - of_int k + 2)))) \<and>
           (\<forall>i j. 0 \<le> i \<and> i \<le> j \<and> j \<le> m \<longrightarrow> U ! nat i \<le> U ! nat j) \<and>
           (sorted U \<longleftrightarrow> U ! nat m \<le> 1)"
proof -
  let ?U = "fknots k m"
  have k1: "1 \<le> k" and m0: "0 \<le> m" using assms by simp_all
  have U: "standardKnot (of_int k) (of_int m) = Inr ?U" using k1 by (rule standardKnot_closed)
  have c: "clamped ?U k m" using k1 m0 by (rule fknots_clamped)
  then have len: "int (length ?U) = m + k + 1"
    and zero: "\<forall>j. 0 \<le> j \<and> j < k \<longrightarrow> ?U ! nat j = 0"
    and one: "\<forall>j. k \<le> j \<and> m + 1 \<le> j \<and> j < m + k + 1 \<longrightarrow> ?U ! nat j = 1"
    and mono: "\<forall>i j. 0 \<le> i \<and> i \<le> j \<and> j \<le> m \<longrightarrow> ?U ! nat i \<le> ?U ! nat j"
    unfolding clamped_def by blast+
  have one': "\<forall>i. m + 1 \<le> i \<and> i < m + k + 1 \<longrightarrow> ?U ! nat i = 1"
    using one assms(2) by auto
  have step: "?U ! nat i = fl32 (?U ! nat (i - 1) + fl32 (1 / (of_int m - of_int k + 2)))"
    if "k \<le> i \<and> i < m + 1" for i
    using that assms fknot_value_step[OF k1, of i m] by (simp add: fknots_nth)
  have srt: "sorted ?U \<longleftrightarrow> ?U ! nat m \<le> 1"
  proof
    assume s: "sorted ?U"
    have "?U ! nat m \<le> ?U ! nat (m + 1)"
      using s m0 len assms(1) by (intro sorted_nth_mono) simp_all
    then show "?U ! nat m \<le> 1" using one'[rule_format, of "m + 1"] assms(1) by simp
  next
    assume top: "?U ! nat m \<le> 1"
    show "sorted ?U"
      unfolding sorted_iff_nth_mono
    proof (intro allI impI)
      fix i j assume ij: "i \<le> j" "j < length ?U"
      have jl: "int j < m + k + 1" using ij(2) len by simp
      show "?U ! i \<le> ?U ! j"
      proof (cases "int j \<le> m")
        case True
        then show ?thesis using mono[rule_format, of "int i" "int j"] ij(1) by simp
      next
        case False
        then have uj: "?U ! j = 1" using one'[rule_format, of "int j"] jl by simp
        show ?thesis
        proof (cases "int i \<le> m")
          case True
          then have "?U ! i \<le> ?U ! nat m" using mono[rule_format, of "int i" m] by simp
          then show ?thesis using top uj by simp
        next
          case False
          then have "?U ! i = 1" using one'[rule_format, of "int i"] jl ij(1) by simp
          then show ?thesis using uj by simp
        qed
      qed
    qed
  qed
  show ?thesis using U len zero one' step mono srt by blast
qed

text \<open>
  Claim C2 as it is worded asks for increments of exactly \<open>1 / (m - k + 2)\<close> and for a
  non-decreasing sequence. For \<open>k = 2\<close> and \<open>m = 8283\<close> the first interior knot is
  \<open>4051 / 2\<^sup>2\<^sup>5\<close>, which is not \<open>1 / 8283\<close>, and the last interior knot is
  \<open>4194315 / 4194304\<close>, above the \<open>1\<close> that follows it.
\<close>

theorem standardKnot_counterexample:
  "(2::int) \<le> 2 \<and> (2::int) - 1 \<le> 8283 \<and>
   standardKnot 2 8283 = Inr (fknots 2 8283) \<and>
   int (length (fknots 2 8283)) = 8283 + 2 + 1 \<and>
   fknots 2 8283 ! 1 = 0 \<and> fknots 2 8283 ! 2 = 4051 / 33554432 \<and>
   fknots 2 8283 ! 2 \<noteq> fknots 2 8283 ! 1 + 1 / (8283 - 2 + 2) \<and>
   fknots 2 8283 ! 8283 = 4194315 / 4194304 \<and> fknots 2 8283 ! 8284 = 1 \<and>
   fknots 2 8283 ! 8284 < fknots 2 8283 ! 8283 \<and>
   \<not> sorted (fknots 2 8283)"
proof -
  have h: "(2::int) \<le> 2" "(2::int) - 1 \<le> 8283" by simp_all
  have l: "int (length (fknots 2 8283)) = 8283 + 2 + 1" by (simp add: fknots_length)
  have s: "fknots 2 8283 ! 2 \<noteq> fknots 2 8283 ! 1 + 1 / (8283 - 2 + 2)"
    unfolding fknots_8283_descent(4,5) by simp
  have d: "fknots 2 8283 ! 8284 < fknots 2 8283 ! 8283"
    unfolding fknots_8283_descent(2,3) by simp
  have "\<not> fknots 2 8283 ! 8283 \<le> fknots 2 8283 ! 8284" using d by simp
  moreover have "(8283::nat) \<le> 8284" "8284 < length (fknots 2 8283)"
    by (simp_all add: fknots_length)
  ultimately have n: "\<not> sorted (fknots 2 8283)"
    using sorted_nth_mono[of "fknots 2 8283" 8283 8284] by blast
  show ?thesis using h fknots_8283_descent l s d n by blast
qed

text \<open>
  The instance \<open>k = 2\<close>, \<open>m = 5\<close>, where the spacing \<open>1 / 5\<close> is not a binary32 value and the
  sequence is non-decreasing.
\<close>

theorem standardKnot_clamped_rounded_witness:
  "(2::int) \<le> 2 \<and> (2::int) - 1 \<le> 5 \<and>
   (\<exists>U. standardKnot 2 5 = Inr U \<and> int (length U) = 5 + 2 + 1 \<and>
        U ! 0 = 0 \<and> U ! 1 = 0 \<and> U ! 6 = 1 \<and> U ! 7 = 1 \<and>
        U ! 2 = fl32 (U ! 1 + fl32 (1 / 5)) \<and> U ! 5 = fl32 (U ! 4 + fl32 (1 / 5)) \<and>
        U ! 2 \<le> U ! 5 \<and> U ! 5 \<le> 1 \<and> sorted U)"
proof -
  have h: "(2::int) \<le> 2" "(2::int) - 1 \<le> 5" by simp_all
  from standardKnot_clamped_rounded[OF h] obtain U where
    U: "standardKnot 2 5 = Inr U" "int (length U) = 5 + 2 + 1"
    and z: "\<forall>i. 0 \<le> i \<and> i < 2 \<longrightarrow> U ! nat i = 0"
    and o: "\<forall>i. 5 + 1 \<le> i \<and> i < 5 + 2 + 1 \<longrightarrow> U ! nat i = 1"
    and s: "\<forall>i. 2 \<le> i \<and> i < 5 + 1 \<longrightarrow> U ! nat i = fl32 (U ! nat (i - 1) + fl32 (1 / (5 - 2 + 2)))"
    and m: "\<forall>i j. 0 \<le> i \<and> i \<le> j \<and> j \<le> 5 \<longrightarrow> U ! nat i \<le> U ! nat j"
    and t: "sorted U \<longleftrightarrow> U ! nat 5 \<le> 1"
    by auto
  have top: "U ! 5 \<le> 1" using U(1) standardKnot_2_5 by (auto simp: eval_nat_numeral)
  then have "sorted U" using t by simp
  with z[rule_format, of 0] z[rule_format, of 1] o[rule_format, of 6] o[rule_format, of 7]
    s[rule_format, of 2] s[rule_format, of 5] m[rule_format, of 2 5] top U
  have "standardKnot 2 5 = Inr U \<and> int (length U) = 5 + 2 + 1 \<and>
        U ! 0 = 0 \<and> U ! 1 = 0 \<and> U ! 6 = 1 \<and> U ! 7 = 1 \<and>
        U ! 2 = fl32 (U ! 1 + fl32 (1 / 5)) \<and> U ! 5 = fl32 (U ! 4 + fl32 (1 / 5)) \<and>
        U ! 2 \<le> U ! 5 \<and> U ! 5 \<le> 1 \<and> sorted U"
    by (simp add: eval_nat_numeral)
  then show ?thesis using h by blast
qed

section \<open>Span location\<close>

text \<open>
  Claim C5. For every \<open>k \<ge> 2\<close>, \<open>m \<ge> k - 1\<close>, \<open>U = standardKnot(k, m)\<close> and every \<open>u\<close> with
  \<open>U[k-1] \<le> u < U[m+1]\<close>, \<^verbatim>\<open>delta(U, u, k, m)\<close> returns an index \<open>i\<close>, not the sentinel
  \<open>-1\<close>, with \<open>U[i] \<le> u < U[i+1]\<close>.
\<close>

theorem delta_finds_span:
  assumes "2 \<le> k" "k - 1 \<le> m"
    and "standardKnot (of_int k) (of_int m) = Inr U"
    and "U ! nat (k - 1) \<le> u" "u < U ! nat (m + 1)"
  shows "\<exists>i. delta U u k m = Inr i \<and> i \<noteq> - 1 \<and> 0 \<le> i \<and> U ! nat i \<le> u \<and> u < U ! nat (i + 1)"
proof -
  have m1: "1 \<le> m" using assms(1,2) by simp
  have c: "clamped U k m" using assms(1) m1 assms(3) by (rule standardKnot_clamped)
  have "U ! nat (k - 1) = 0" "U ! nat (m + 1) = 1"
    using clamped_ends(3,4)[OF assms(1) m1 c] assms(2) by simp_all
  then have "0 \<le> u" "u < 1" using assms(4,5) by simp_all
  from delta_on_clamped[OF assms(1,2) c this] obtain d where
    "delta U u k m = Inr d" "k - 1 \<le> d" "in_span U u d" by auto
  then show ?thesis using assms(1) by (intro exI[of _ d]) (simp add: in_span_def)
qed

text \<open>The instance \<open>k = 3\<close>, \<open>m = 5\<close>, \<open>u = 3 / 8\<close>.\<close>

theorem delta_finds_span_witness:
  "(2::int) \<le> 3 \<and> (3::int) - 1 \<le> 5 \<and>
   standardKnot (of_int 3) (of_int 5) = Inr [0, 0, 0, 1 / 4, 1 / 2, 3 / 4, 1, 1, 1] \<and>
   [0, 0, 0, 1 / 4, 1 / 2, 3 / 4, 1, 1, 1] ! nat (3 - 1) \<le> (3 / 8 :: real) \<and>
   (3 / 8 :: real) < [0, 0, 0, 1 / 4, 1 / 2, 3 / 4, 1, 1, 1] ! nat (5 + 1) \<and>
   (\<exists>i. delta [0, 0, 0, 1 / 4, 1 / 2, 3 / 4, 1, 1, 1] (3 / 8) 3 5 = Inr i \<and> i \<noteq> - 1 \<and> 0 \<le> i \<and>
        [0, 0, 0, 1 / 4, 1 / 2, 3 / 4, 1, 1, 1] ! nat i \<le> (3 / 8 :: real) \<and>
        (3 / 8 :: real) < [0, 0, 0, 1 / 4, 1 / 2, 3 / 4, 1, 1, 1] ! nat (i + 1))"
proof -
  let ?U = "[0, 0, 0, 1 / 4, 1 / 2, 3 / 4, 1, 1, 1] :: real list"
  have h: "(2::int) \<le> 3" "(3::int) - 1 \<le> 5" by simp_all
  have U: "standardKnot (of_int 3) (of_int 5) = Inr ?U"
    using standardKnot_3_5 by simp
  have lo: "?U ! nat (3 - 1) \<le> (3 / 8 :: real)" by (simp add: numeral_2_eq_2)
  have hi: "(3 / 8 :: real) < ?U ! nat (5 + 1)" by (simp add: eval_nat_numeral)
  from delta_finds_span[OF h U lo hi] h U lo hi show ?thesis by blast
qed

text \<open>
  Claim C6, as the loop bound \<^verbatim>\<open>i < m + k - 1\<close> has it. For every knot vector \<open>U\<close> of length
  \<open>m + k + 1\<close>, \<^verbatim>\<open>delta(U, u, k, m)\<close> scans the candidate indices from \<open>0\<close> to \<open>m + k - 2\<close>
  inclusive and returns the smallest of them with \<open>U[i] \<le> u < U[i+1]\<close>; it returns \<open>-1\<close>
  exactly when no index in \<open>[0, m + k - 2]\<close> is such a span.
\<close>

theorem delta_scan:
  assumes "int (length U) = m + k + 1"
  shows "\<exists>d. delta U u k m = Inr d \<and>
           (d = - 1 \<longleftrightarrow> \<not> (\<exists>j. 0 \<le> j \<and> j \<le> m + k - 2 \<and> in_span U u j)) \<and>
           (d \<noteq> - 1 \<longrightarrow>
              0 \<le> d \<and> d \<le> m + k - 2 \<and> in_span U u d \<and>
              (\<forall>j. 0 \<le> j \<and> j < d \<longrightarrow> \<not> in_span U u j))"
proof -
  obtain d where d: "delta_loop U u k m 0 = Inr d"
    and r: "(d = - 1 \<and> (\<forall>j. 0 \<le> j \<and> j < m + k - 1 \<longrightarrow> \<not> in_span U u j)) \<or>
            (0 \<le> d \<and> d < m + k - 1 \<and> in_span U u d \<and> (\<forall>j. 0 \<le> j \<and> j < d \<longrightarrow> \<not> in_span U u j))"
    using delta_loop_scan[of 0 m k U u] assms by auto
  have eq: "j \<le> m + k - 2 \<longleftrightarrow> j < m + k - 1" for j by linarith
  from r show ?thesis
  proof
    assume "d = - 1 \<and> (\<forall>j. 0 \<le> j \<and> j < m + k - 1 \<longrightarrow> \<not> in_span U u j)"
    then show ?thesis using d by (simp add: delta_def eq)
  next
    assume h: "0 \<le> d \<and> d < m + k - 1 \<and> in_span U u d \<and> (\<forall>j. 0 \<le> j \<and> j < d \<longrightarrow> \<not> in_span U u j)"
    then have "d \<noteq> - 1" by simp
    moreover have "\<exists>j. 0 \<le> j \<and> j \<le> m + k - 2 \<and> in_span U u j"
      using h eq by blast
    ultimately show ?thesis using d h by (simp add: delta_def eq)
  qed
qed

text \<open>
  Claim C6 as it is worded lets the scan reach index \<open>m + k - 1\<close>. On the knot vector
  \<open>[0, 0, 1, 2]\<close> with \<open>k = 2\<close>, \<open>m = 1\<close> and \<open>u = 3 / 2\<close>, index \<open>2 = m + k - 1\<close> is a span
  that contains \<open>u\<close>, and \<^verbatim>\<open>delta\<close> returns \<open>-1\<close>.
\<close>

theorem delta_scan_counterexample:
  "delta [0, 0, 1, 2] (3 / 2) 2 1 = Inr (- 1) \<and>
   (0::int) \<le> 2 \<and> (2::int) \<le> 1 + 2 - 1 \<and> in_span [0, 0, 1, 2] (3 / 2) 2"
  by (simp add: delta_def vec_at_def in_span_def)

text \<open>The same knot vector at \<open>u = 1 / 2\<close>, where the scan stops at index \<open>1\<close>.\<close>

theorem delta_scan_witness:
  "int (length [0, 0, 1, 2 :: real]) = 1 + 2 + 1 \<and>
   (\<exists>d. delta [0, 0, 1, 2] (1 / 2) 2 1 = Inr d \<and> d = 1 \<and> d \<noteq> - 1 \<and> d \<le> 1 + 2 - 2 \<and>
        in_span [0, 0, 1, 2] (1 / 2) d \<and> \<not> in_span [0, 0, 1, 2] (1 / 2) 0)"
proof -
  have len: "int (length [0, 0, 1, 2 :: real]) = 1 + 2 + 1" by simp
  have val: "delta [0, 0, 1, 2] (1 / 2) 2 1 = Inr 1"
    by (simp add: delta_def vec_at_def)
  from delta_scan[OF len, of "1 / 2"] val len show ?thesis by auto
qed

section \<open>The weight vector\<close>

text \<open>
  Claim C10. The result of \<^verbatim>\<open>efficientBSpline\<close> does not depend on its argument \<open>M\<close>: for
  any two weight vectors and the same \<open>E\<close>, \<open>U\<close>, \<open>k\<close>, \<open>m\<close> and \<open>u_inc\<close> the two calls return
  the same vertex and colour sequences.
\<close>

theorem efficientBSpline_ignores_M:
  "efficientBSpline E U M1 k m u_inc = efficientBSpline E U M2 k m u_inc"
  by (simp add: efficientBSpline_def)

section \<open>Coordinate round trip\<close>

text \<open>
  Claim C8, as the two conversions are written. \<^verbatim>\<open>glPosToScreenCoords\<close> applies no
  half-pixel offset; \<^verbatim>\<open>getCursorPosGL\<close> adds \<open>(0.5, 0.5)\<close> to the cursor position before it
  scales. For window dimensions \<open>w, h > 0\<close>, converting a point \<open>(x, y)\<close> to screen coordinates
  and back through \<^verbatim>\<open>getCursorPosGL\<close> returns \<open>(x + 1 / w, y - 1 / h)\<close>: the point moved by
  half a pixel in each axis.
\<close>

theorem screen_round_trip_shift:
  assumes "0 < screenWidth cb" "0 < screenHeight cb"
  shows "getCursorPosGL
           (cursorPosCallback cb (fst (glPosToScreenCoords cb (x, y)))
              (snd (glPosToScreenCoords cb (x, y)))) =
         Inr (x + 1 / of_int (screenWidth cb), y - 1 / of_int (screenHeight cb))"
  using assms
  by (simp add: getCursorPosGL_def cursorPosCallback_def glPosToScreenCoords_def Let_def
      field_simps)

text \<open>
  Claim C8 as it is worded asks for the original point. In the \<open>800 \<times> 800\<close> window that
  \<^verbatim>\<open>main\<close> opens, the origin comes back as \<open>(1 / 800, - 1 / 800)\<close>.
\<close>

theorem screen_round_trip_counterexample:
  "getCursorPosGL
     (cursorPosCallback (newCallbacks 800 800)
        (fst (glPosToScreenCoords (newCallbacks 800 800) (0, 0)))
        (snd (glPosToScreenCoords (newCallbacks 800 800) (0, 0)))) =
   Inr (1 / 800, - (1 / 800)) \<and>
   getCursorPosGL
     (cursorPosCallback (newCallbacks 800 800)
        (fst (glPosToScreenCoords (newCallbacks 800 800) (0, 0)))
        (snd (glPosToScreenCoords (newCallbacks 800 800) (0, 0)))) \<noteq>
   Inr (0, 0)"
  by (simp add: getCursorPosGL_def cursorPosCallback_def glPosToScreenCoords_def Let_def
      newCallbacks_def)

text \<open>The shift at the point \<open>(1 / 2, 1 / 4)\<close> of the same window.\<close>

theorem screen_round_trip_shift_witness:
  "0 < screenWidth (newCallbacks 800 800) \<and> 0 < screenHeight (newCallbacks 800 800) \<and>
   getCursorPosGL
     (cursorPosCallback (newCallbacks 800 800)
        (fst (glPosToScreenCoords (newCallbacks 800 800) (1 / 2, 1 / 4)))
        (snd (glPosToScreenCoords (newCallbacks 800 800) (1 / 2, 1 / 4)))) =
   Inr (1 / 2 + 1 / 800, 1 / 4 - 1 / 800)"
proof -
  have h: "0 < screenWidth (newCallbacks 800 800)" "0 < screenHeight (newCallbacks 800 800)"
    by (simp_all add: newCallbacks_def)
  have w: "screenWidth (newCallbacks 800 800) = 800" "screenHeight (newCallbacks 800 800) = 800"
    by (simp_all add: newCallbacks_def)
  from screen_round_trip_shift[OF h, of "1 / 2" "1 / 4"] h show ?thesis
    by (simp only: w of_int_numeral simp_thms)
qed

section \<open>The evaluation step\<close>



text \<open>
  Claim C1 states that the evaluation step returns the point of the standard de Boor
  algorithm for the same \<open>k\<close>, control points, knot vector and \<open>u\<close>. With two control points
  \<open>(0, 0, 0)\<close> and \<open>(1, 0, 0)\<close>, \<open>k = 2\<close> and \<open>u = 1 / 2\<close>, on the knot vector that
  \<^verbatim>\<open>standardKnot\<close> returns, the step yields \<open>(1, 0, 0)\<close> and the de Boor recurrence at the
  same span yields \<open>(1 / 2, 0, 0)\<close>.
\<close>

theorem deBoor_mismatch:
  "standardKnot 2 1 = Inr [0, 0, 1, 1] \<and>
   curvePoint [Vec3 0 0 0, Vec3 1 0 0] [0, 0, 1, 1] 2 1 (1 / 2) = Inr (Vec3 1 0 0) \<and>
   delta [0, 0, 1, 1] (1 / 2) 2 1 = Inr 1 \<and>
   deBoor_point [Vec3 0 0 0, Vec3 1 0 0] [0, 0, 1, 1] 2 1 (1 / 2) = Vec3 (1 / 2) 0 0 \<and>
   curvePoint [Vec3 0 0 0, Vec3 1 0 0] [0, 0, 1, 1] 2 1 (1 / 2) \<noteq>
     Inr (deBoor_point [Vec3 0 0 0, Vec3 1 0 0] [0, 0, 1, 1] 2 1 (1 / 2))"
  by (simp add: standardKnot_def curvePoint_def delta_def deBoor_point_def vec_at_def blend_def)

text \<open>
  Claim C3 states that with two control points and \<open>k = 2\<close> the sample at \<open>u\<close> is
  \<open>(1 - u) * E[0] + u * E[1]\<close>. For \<open>E = [(0, 0, 0), (1, 0, 0)]\<close> and \<open>u_inc = 1 / 2\<close> the
  two vertices returned are both \<open>E[1]\<close>, where the claim has \<open>(0, 0, 0)\<close> and
  \<open>(1 / 2, 0, 0)\<close>.
\<close>

theorem two_point_samples:
  "standardKnot 2 1 = Inr [0, 0, 1, 1] \<and>
   efficientBSpline [Vec3 0 0 0, Vec3 1 0 0] [0, 0, 1, 1] [1] 2 1 (1 / 2) =
     Some (Inr \<lparr>verts = [Vec3 1 0 0, Vec3 1 0 0], cols = [curveColour, curveColour]\<rparr>) \<and>
   blend (1 - 0) (Vec3 0 0 0) (Vec3 1 0 0) = Vec3 0 0 0 \<and>
   blend (1 - 1 / 2) (Vec3 0 0 0) (Vec3 1 0 0) = Vec3 (1 / 2) 0 0"
  by (simp add: standardKnot_def efficientBSpline_def sample_loop.simps curvePoint_def
      delta_def vec_at_def emptyGeom_def blend_def)

section \<open>Safety of the sampling loop\<close>

text \<open>
  Claim C9. For every \<open>k \<ge> 2\<close>, every control-point list with at least two points and every
  \<open>u_inc > 0\<close>, with \<open>m\<close> the point count minus one and \<open>U = standardKnot(k, m)\<close>:
  \<^verbatim>\<open>efficientBSpline\<close> returns without an out-of-range access and without a zero
  denominator. For each \<open>u\<close> of the domain the span index \<open>d\<close> satisfies \<open>k - 1 \<le> d \<le> m\<close>,
  every seeded index \<open>d - i\<close> with \<open>i\<close> in \<open>[0, k - 2]\<close> lies in \<open>[0, m]\<close>, every denominator
  \<open>U[i+r-1] - U[i]\<close> of the blend is strictly positive, and the evaluation of the point
  succeeds. When \<open>m < k - 1\<close> the domain is empty.
\<close>

theorem efficientBSpline_safe:
  assumes "2 \<le> k" "2 \<le> length E" "0 < u_inc" "m = int (length E) - 1"
  shows "\<exists>U. standardKnot (of_int k) (of_int m) = Inr U \<and>
           (\<exists>g. efficientBSpline E U M k m u_inc = Some (Inr g)) \<and>
           (\<forall>u. U ! nat (k - 1) \<le> u \<and> u < U ! nat (m + 1) \<longrightarrow>
              (\<exists>d. delta U u k m = Inr d \<and> k - 1 \<le> d \<and> d \<le> m \<and>
                   (\<forall>i. 0 \<le> i \<and> i \<le> k - 2 \<longrightarrow> 0 \<le> d - i \<and> d - i \<le> m) \<and>
                   (\<forall>r s. 3 \<le> r \<and> r \<le> k \<and> 0 \<le> s \<and> s \<le> r - 3 \<longrightarrow>
                      0 < U ! nat (d - s + r - 1) - U ! nat (d - s)) \<and>
                   (\<exists>p. curvePoint E U k m u = Inr p)))"
proof -
  have k1: "1 \<le> k" and m1: "1 \<le> m" and len: "int (length E) = m + 1"
    using assms by simp_all
  obtain U where U: "standardKnot (of_int k) (of_int m) = Inr U"
    using standardKnot_closed[OF k1, of m] by blast
  have c: "clamped U k m" using assms(1) m1 U by (rule standardKnot_clamped)
  note ends = clamped_ends(3,4)[OF assms(1) m1 c]
  have run: "\<exists>g. efficientBSpline E U M k m u_inc = Some (Inr g)"
    using efficientBSpline_on_clamped[OF assms(1) m1 c len assms(3), of M] by blast
  have dom: "\<exists>d. delta U u k m = Inr d \<and> k - 1 \<le> d \<and> d \<le> m \<and>
                   (\<forall>i. 0 \<le> i \<and> i \<le> k - 2 \<longrightarrow> 0 \<le> d - i \<and> d - i \<le> m) \<and>
                   (\<forall>r s. 3 \<le> r \<and> r \<le> k \<and> 0 \<le> s \<and> s \<le> r - 3 \<longrightarrow>
                      0 < U ! nat (d - s + r - 1) - U ! nat (d - s)) \<and>
                   (\<exists>p. curvePoint E U k m u = Inr p)"
    if u: "U ! nat (k - 1) \<le> u \<and> u < U ! nat (m + 1)" for u
  proof -
    have km: "k - 1 \<le> m"
    proof (rule ccontr)
      assume "\<not> k - 1 \<le> m"
      then show False using u ends by simp
    qed
    then have u01: "0 \<le> u" "u < 1" using u ends by simp_all
    from curvePoint_on_clamped[OF assms(1) km c len u01] obtain d where
      d: "delta U u k m = Inr d" "k - 1 \<le> d" "d \<le> m" "in_span U u d"
        "curvePoint E U k m u = Inr (point_spec E U k d u)" by blast
    have idx: "\<forall>i. 0 \<le> i \<and> i \<le> k - 2 \<longrightarrow> 0 \<le> d - i \<and> d - i \<le> m" using d(2,3) by auto
    have den: "0 < U ! nat (d - s + r - 1) - U ! nat (d - s)"
      if rs: "3 \<le> r \<and> r \<le> k \<and> 0 \<le> s \<and> s \<le> r - 3" for r s
    proof -
      have "blend_ok U d r" using clamped_blend_ok[OF assms(1) km c d(2,3,4) u01(2)] rs by simp
      moreover have "0 \<le> s \<and> s < r - 2" using rs by simp
      ultimately have "U ! nat (d - s) < U ! nat (d - s + r - 1)"
        unfolding blend_ok_def by blast
      then show ?thesis by simp
    qed
    show ?thesis using d(1,2,3,5) idx den by blast
  qed
  show ?thesis using U run dom by blast
qed

text \<open>The instance \<open>k = 3\<close>, three control points, \<open>u_inc = 1 / 4\<close>, at \<open>u = 1 / 2\<close>.\<close>

theorem efficientBSpline_safe_witness:
  "(2::int) \<le> 3 \<and> 2 \<le> length [Vec3 0 0 0, Vec3 1 0 0, Vec3 1 1 0] \<and> (0::real) < 1 / 4 \<and>
   2 = int (length [Vec3 0 0 0, Vec3 1 0 0, Vec3 1 1 0]) - 1 \<and>
   (\<exists>U. standardKnot 3 2 = Inr U \<and>
        (\<exists>g. efficientBSpline [Vec3 0 0 0, Vec3 1 0 0, Vec3 1 1 0] U [1] 3 2 (1 / 4) = Some (Inr g)) \<and>
        U ! nat (3 - 1) \<le> 1 / 2 \<and> 1 / 2 < U ! nat (2 + 1) \<and>
        (\<exists>d. delta U (1 / 2) 3 2 = Inr d \<and> 3 - 1 \<le> d \<and> d \<le> 2 \<and>
             0 < U ! nat (d - 0 + 3 - 1) - U ! nat (d - 0) \<and>
             (\<exists>p. curvePoint [Vec3 0 0 0, Vec3 1 0 0, Vec3 1 1 0] U 3 2 (1 / 2) = Inr p)))"
proof -
  let ?E = "[Vec3 0 0 0, Vec3 1 0 0, Vec3 1 1 0]"
  let ?U = "[0, 0, 0, 1, 1, 1] :: real list"
  have h: "(2::int) \<le> 3" "2 \<le> length ?E" "(0::real) < 1 / 4" "2 = int (length ?E) - 1"
    by simp_all
  have k: "standardKnot 3 2 = Inr ?U" by (simp add: standardKnot_def vec_at_def)
  have dom: "?U ! nat (3 - 1) \<le> 1 / 2 \<and> 1 / 2 < ?U ! nat (2 + 1)"
    by (simp add: numeral_2_eq_2 numeral_3_eq_3)
  from efficientBSpline_safe[OF h, of "[1]"] k have
    run: "\<exists>g. efficientBSpline ?E ?U [1] 3 2 (1 / 4) = Some (Inr g)"
    and all: "\<forall>u. ?U ! nat (3 - 1) \<le> u \<and> u < ?U ! nat (2 + 1) \<longrightarrow>
              (\<exists>d. delta ?U u 3 2 = Inr d \<and> 3 - 1 \<le> d \<and> d \<le> 2 \<and>
                   (\<forall>i. 0 \<le> i \<and> i \<le> 3 - 2 \<longrightarrow> 0 \<le> d - i \<and> d - i \<le> 2) \<and>
                   (\<forall>r s. 3 \<le> r \<and> r \<le> 3 \<and> 0 \<le> s \<and> s \<le> r - 3 \<longrightarrow>
                      0 < ?U ! nat (d - s + r - 1) - ?U ! nat (d - s)) \<and>
                   (\<exists>p. curvePoint ?E ?U 3 2 u = Inr p))"
    by auto
  from all[rule_format, OF dom] obtain d where
    d: "delta ?U (1 / 2) 3 2 = Inr d" "3 - 1 \<le> d" "d \<le> 2"
      "\<forall>r s. 3 \<le> r \<and> r \<le> 3 \<and> 0 \<le> s \<and> s \<le> r - 3 \<longrightarrow>
                      0 < ?U ! nat (d - s + r - 1) - ?U ! nat (d - s)"
      "\<exists>p. curvePoint ?E ?U 3 2 (1 / 2) = Inr p"
    by blast
  have "0 < ?U ! nat (d - 0 + 3 - 1) - ?U ! nat (d - 0)"
    using d(4)[rule_format, of 3 0] by simp
  then have "standardKnot 3 2 = Inr ?U \<and>
        (\<exists>g. efficientBSpline ?E ?U [1] 3 2 (1 / 4) = Some (Inr g)) \<and>
        ?U ! nat (3 - 1) \<le> 1 / 2 \<and> 1 / 2 < ?U ! nat (2 + 1) \<and>
        (\<exists>d. delta ?U (1 / 2) 3 2 = Inr d \<and> 3 - 1 \<le> d \<and> d \<le> 2 \<and>
             0 < ?U ! nat (d - 0 + 3 - 1) - ?U ! nat (d - 0) \<and>
             (\<exists>p. curvePoint ?E ?U 3 2 (1 / 2) = Inr p))"
    using d(1,2,3,5) k run dom by blast
  then show ?thesis using h by blast
qed

text \<open>
  Claim C7. For every \<open>k \<ge> 2\<close>, \<open>u_inc > 0\<close> and control-point list with at least two
  points, on the knot vector of \<^verbatim>\<open>standardKnot\<close>: when the domain \<open>[U[k-1], U[m+1])\<close> is
  empty, which is the case for every \<open>m < k - 1\<close>, where \<open>U[k-1] = U[m+1] = 0\<close>,
  \<^verbatim>\<open>efficientBSpline\<close> returns an empty vertex sequence; when the domain is not empty and
  not wider than \<open>u_inc\<close>, it returns exactly one sampled point, the one at \<open>U[k-1]\<close>. Both
  are normal returns.
\<close>

theorem efficientBSpline_small_domain:
  assumes "2 \<le> k" "0 < u_inc" "2 \<le> length E" "m = int (length E) - 1"
  shows "\<exists>U. standardKnot (of_int k) (of_int m) = Inr U \<and>
           (m < k - 1 \<longrightarrow> U ! nat (k - 1) = 0 \<and> U ! nat (m + 1) = 0) \<and>
           (U ! nat (m + 1) \<le> U ! nat (k - 1) \<longrightarrow>
              efficientBSpline E U M k m u_inc = Some (Inr \<lparr>verts = [], cols = []\<rparr>)) \<and>
           (U ! nat (k - 1) < U ! nat (m + 1) \<and> U ! nat (m + 1) - U ! nat (k - 1) \<le> u_inc \<longrightarrow>
              (\<exists>p. curvePoint E U k m (U ! nat (k - 1)) = Inr p \<and>
                   efficientBSpline E U M k m u_inc =
                     Some (Inr \<lparr>verts = [p], cols = [curveColour]\<rparr>)))"
proof -
  have k1: "1 \<le> k" and m1: "1 \<le> m" and len: "int (length E) = m + 1"
    using assms by simp_all
  obtain U where U: "standardKnot (of_int k) (of_int m) = Inr U"
    using standardKnot_closed[OF k1, of m] by blast
  have c: "clamped U k m" using assms(1) m1 U by (rule standardKnot_clamped)
  note ends = clamped_ends(3,4)[OF assms(1) m1 c]
  note run = efficientBSpline_on_clamped[OF assms(1) m1 c len assms(2), of M]
  have z: "m < k - 1 \<longrightarrow> U ! nat (k - 1) = 0 \<and> U ! nat (m + 1) = 0"
    using ends by simp
  have a: "efficientBSpline E U M k m u_inc = Some (Inr \<lparr>verts = [], cols = []\<rparr>)"
    if "U ! nat (m + 1) \<le> U ! nat (k - 1)"
  proof -
    have "m < k - 1" using that ends by (simp split: if_splits)
    then show ?thesis using run by simp
  qed
  have b: "\<exists>p. curvePoint E U k m (U ! nat (k - 1)) = Inr p \<and>
      efficientBSpline E U M k m u_inc = Some (Inr \<lparr>verts = [p], cols = [curveColour]\<rparr>)"
    if h: "U ! nat (k - 1) < U ! nat (m + 1) \<and> U ! nat (m + 1) - U ! nat (k - 1) \<le> u_inc"
  proof -
    have km: "k - 1 \<le> m" using h ends by (simp split: if_splits)
    then have one: "1 \<le> u_inc" using h ends by simp
    then have "0 < 1 / u_inc" "1 / u_inc \<le> 1" by simp_all
    then have "\<lceil>1 / u_inc\<rceil> = 1" by (intro ceiling_unique) simp_all
    then have N: "nat \<lceil>(if m < k - 1 then 0 else 1) / u_inc\<rceil> = 1" using km by simp
    from curvePoint_on_clamped[OF assms(1) km c len, of 0] obtain p where
      p: "curvePoint E U k m 0 = Inr p" by auto
    have "efficientBSpline E U M k m u_inc = Some (Inr \<lparr>verts = [p], cols = [curveColour]\<rparr>)"
      using run p unfolding N by (simp add: point_of_def)
    then show ?thesis using p ends by auto
  qed
  show ?thesis using U z a b by blast
qed

text \<open>
  Two control points: with \<open>k = 3\<close> the domain is empty, with \<open>k = 2\<close> and \<open>u_inc = 2\<close> it is
  narrower than the step.
\<close>

theorem efficientBSpline_small_domain_witness:
  "(2::int) \<le> 3 \<and> (2::int) \<le> 2 \<and> (0::real) < 1 / 2 \<and> (0::real) < 2 \<and>
   2 \<le> length [Vec3 0 0 0, Vec3 1 0 0] \<and> 1 = int (length [Vec3 0 0 0, Vec3 1 0 0]) - 1 \<and>
   (\<exists>U. standardKnot 3 1 = Inr U \<and> U ! nat (3 - 1) = 0 \<and> U ! nat (1 + 1) = 0 \<and>
        efficientBSpline [Vec3 0 0 0, Vec3 1 0 0] U [1] 3 1 (1 / 2) =
          Some (Inr \<lparr>verts = [], cols = []\<rparr>)) \<and>
   (\<exists>U. standardKnot 2 1 = Inr U \<and> U ! nat (2 - 1) < U ! nat (1 + 1) \<and>
        U ! nat (1 + 1) - U ! nat (2 - 1) \<le> 2 \<and>
        (\<exists>p. efficientBSpline [Vec3 0 0 0, Vec3 1 0 0] U [1] 2 1 2 =
               Some (Inr \<lparr>verts = [p], cols = [curveColour]\<rparr>)))"
proof -
  let ?E = "[Vec3 0 0 0, Vec3 1 0 0]"
  have h: "(2::int) \<le> 3" "(2::int) \<le> 2" "(0::real) < 1 / 2" "(0::real) < 2"
    "2 \<le> length ?E" "1 = int (length ?E) - 1" by simp_all
  from efficientBSpline_small_domain[OF h(1,3,5,6), of "[1]"] obtain U where
    U: "standardKnot 3 1 = Inr U"
      "(1::int) < 3 - 1 \<longrightarrow> U ! nat (3 - 1) = 0 \<and> U ! nat (1 + 1) = 0"
      "U ! nat (1 + 1) \<le> U ! nat (3 - 1) \<longrightarrow>
         efficientBSpline ?E U [1] 3 1 (1 / 2) = Some (Inr \<lparr>verts = [], cols = []\<rparr>)"
    by auto
  have e1: "\<exists>U. standardKnot 3 1 = Inr U \<and> U ! nat (3 - 1) = 0 \<and> U ! nat (1 + 1) = 0 \<and>
        efficientBSpline ?E U [1] 3 1 (1 / 2) = Some (Inr \<lparr>verts = [], cols = []\<rparr>)"
    using U by (intro exI[of _ U]) simp
  have k2: "standardKnot 2 1 = Inr [0, 0, 1, 1]" by (simp add: standardKnot_def vec_at_def)
  from efficientBSpline_small_domain[OF h(2,4,5,6), of "[1]"] k2 have
    V: "[0, 0, 1, 1 :: real] ! nat (2 - 1) < [0, 0, 1, 1] ! nat (1 + 1) \<and>
         [0, 0, 1, 1 :: real] ! nat (1 + 1) - [0, 0, 1, 1] ! nat (2 - 1) \<le> 2 \<longrightarrow>
         (\<exists>p. efficientBSpline ?E [0, 0, 1, 1] [1] 2 1 2 =
               Some (Inr \<lparr>verts = [p], cols = [curveColour]\<rparr>))"
    by auto
  have dom: "[0, 0, 1, 1 :: real] ! nat (2 - 1) < [0, 0, 1, 1] ! nat (1 + 1) \<and>
         [0, 0, 1, 1 :: real] ! nat (1 + 1) - [0, 0, 1, 1] ! nat (2 - 1) \<le> 2"
    by (simp add: numeral_2_eq_2)
  have e2: "\<exists>U. standardKnot 2 1 = Inr U \<and> U ! nat (2 - 1) < U ! nat (1 + 1) \<and>
        U ! nat (1 + 1) - U ! nat (2 - 1) \<le> 2 \<and>
        (\<exists>p. efficientBSpline ?E U [1] 2 1 2 = Some (Inr \<lparr>verts = [p], cols = [curveColour]\<rparr>))"
    using k2 dom V by (intro exI[of _ "[0, 0, 1, 1]"]) blast
  show ?thesis using h e1 e2 by blast
qed

end
